theory Spec2Isabelle
  imports Main "HOL-Library.Char_ord" "HOL-Library.List_Lexorder" "HOL-Library.Multiset"
begin

section \<open>Cards\<close>

text \<open>
  A card is a Python string of two symbols, rank then suit (\<^verbatim>\<open>"HH"\<close>, \<^verbatim>\<open>"9B"\<close>);
  \<^verbatim>\<open>compatible\<close> unpacks it with \<^verbatim>\<open>top_str, top_suit = list(top)\<close>, which raises for
  any other length. The model takes the pair itself.
\<close>

type_synonym card = "char \<times> char"

definition str_card :: "card \<Rightarrow> string" where
  "str_card c = [fst c, snd c]"

text \<open>Class attributes of \<^verbatim>\<open>Stack\<close>.\<close>

definition face_values :: "char list" where
  "face_values = [CHR ''H'', CHR ''S'', CHR ''C'', CHR ''D'']"

definition num_values :: "char list" where
  "num_values = [CHR ''6'', CHR ''7'', CHR ''8'', CHR ''9'']"

definition face_cards :: "card list" where
  "face_cards = [(CHR ''H'', CHR ''H''), (CHR ''S'', CHR ''S''),
                 (CHR ''C'', CHR ''C''), (CHR ''D'', CHR ''D'')]"

text \<open>Class attributes of \<^verbatim>\<open>Game\<close>: the deck that \<^verbatim>\<open>deal_cards\<close> shuffles.\<close>

definition game_face_cards :: "card list" where
  "game_face_cards = concat (replicate 4 face_cards)"

definition number_cards :: "card list" where
  "number_cards = concat (replicate 2
     [(CHR ''0'', CHR ''B''), (CHR ''0'', CHR ''R''), (CHR ''9'', CHR ''B''),
      (CHR ''9'', CHR ''R''), (CHR ''8'', CHR ''B''), (CHR ''8'', CHR ''R''),
      (CHR ''7'', CHR ''B''), (CHR ''7'', CHR ''R''), (CHR ''6'', CHR ''B''),
      (CHR ''6'', CHR ''R'')])"

text \<open>
  \<^verbatim>\<open>int(top_str)\<close>, which the source evaluates only for a symbol of \<^verbatim>\<open>num_values\<close>,
  a decimal digit.
\<close>

definition int_of_digit :: "char \<Rightarrow> int" where
  "int_of_digit c = int (of_char c) - 48"

definition compatible :: "card \<Rightarrow> card \<Rightarrow> bool" where
  "compatible top_card bottom_card =
     (case top_card of (top_str, top_suit) \<Rightarrow>
      case bottom_card of (bottom_str, bottom_suit) \<Rightarrow>
        if top_suit = bottom_suit \<and> top_str \<in> set face_values then True
        else if top_str \<in> set face_values \<or> bottom_str \<in> set face_values then False
        else
          let top_number = (if top_str \<in> set num_values then int_of_digit top_str else 10);
              bottom_number =
                (if bottom_str \<in> set num_values then int_of_digit bottom_str else 10)
          in if bottom_number = top_number - 1 \<and> top_suit \<noteq> bottom_suit then True
             else False)"

subsection \<open>The rule as the specification words it\<close>

text \<open>The valid card codes are the cards of the deck.\<close>

definition valid_card :: "card \<Rightarrow> bool" where
  "valid_card c = (c \<in> set (game_face_cards @ number_cards))"

definition is_face :: "card \<Rightarrow> bool" where
  "is_face c = (fst c \<in> set face_values)"

definition is_numeric :: "card \<Rightarrow> bool" where
  "is_numeric c = (fst c \<in> set (CHR ''0'' # num_values))"

text \<open>The value of a number card: its digit, the symbol 0 standing for ten.\<close>

definition card_value :: "card \<Rightarrow> int" where
  "card_value c = (if fst c = CHR ''0'' then 10 else int_of_digit (fst c))"

text \<open>The suit symbol of a number card (B or R) is its colour.\<close>

definition colour :: "card \<Rightarrow> char" where
  "colour c = snd c"

definition compatible_spec :: "card \<Rightarrow> card \<Rightarrow> bool" where
  "compatible_spec top_card bottom_card =
     ((is_face top_card \<and> is_face bottom_card \<and> snd top_card = snd bottom_card) \<or>
      (is_numeric top_card \<and> is_numeric bottom_card \<and> card_value bottom_card = card_value top_card - 1 \<and>
       colour top_card \<noteq> colour bottom_card))"

section \<open>Stacks\<close>

text \<open>
  \<^verbatim>\<open>card_type\<close> is one of the strings \<^verbatim>\<open>"stack"\<close> and \<^verbatim>\<open>"freecell"\<close>: the program
  builds no other (\<^verbatim>\<open>Game.__init__\<close>, \<^verbatim>\<open>exact_setup\<close>).
\<close>

datatype card_type = TStack | TFreecell

text \<open>
  The attribute \<^verbatim>\<open>stack\<close> holds a list of cards or the marker string \<^verbatim>\<open>"X"\<close> of a collapsed
  stack. \<^verbatim>\<open>past_cards\<close> is the string \<^verbatim>\<open>""\<close> at first, the card string after a collapse
  in \<^verbatim>\<open>resolve_move_to\<close>, and an integer after \<^verbatim>\<open>exact_setup\<close>.
\<close>

datatype contents = Cards "card list" | X

datatype past = PastStr string | PastInt int

record Stack =
  card_type :: card_type
  locked :: bool
  stack :: contents
  past_cards :: past

datatype error =
    IllegalInit          \<comment> \<open>\<^verbatim>\<open>Exception("Illegal init, ...")\<close>\<close>
  | IllegalMove          \<comment> \<open>\<^verbatim>\<open>Exception("Trying to force illegal move")\<close>\<close>
  | NoMoves              \<comment> \<open>\<^verbatim>\<open>Exception("No moves for successful game solve?")\<close>\<close>
  | NotTopLevel          \<comment> \<open>\<^verbatim>\<open>Exception("Should only call this from top level.")\<close>\<close>
  | SolveComplete        \<comment> \<open>\<^verbatim>\<open>Exception("Trying to solve complete game.")\<close>\<close>
  | ImpossibleToSolve    \<comment> \<open>\<^verbatim>\<open>Exception("Impossible to solve game")\<close>\<close>
  | IndexError
  | ValueError
  | TypeError

text \<open>\<^verbatim>\<open>Stack(card_type, locked)\<close>.\<close>

definition new_Stack :: "card_type \<Rightarrow> bool \<Rightarrow> Stack" where
  "new_Stack ct lk = \<lparr>card_type = ct, locked = lk, stack = Cards [], past_cards = PastStr []\<rparr>"

text \<open>Python's truth value and \<^verbatim>\<open>len\<close> of the attribute: the marker is a non-empty string.\<close>

definition truthy :: "contents \<Rightarrow> bool" where
  "truthy c = (case c of Cards cs \<Rightarrow> cs \<noteq> [] | X \<Rightarrow> True)"

definition py_len :: "contents \<Rightarrow> nat" where
  "py_len c = (case c of Cards cs \<Rightarrow> length cs | X \<Rightarrow> 1)"

text \<open>\<^verbatim>\<open>str\<close> of a natural number and of an integer, in decimal.\<close>

fun str_nat :: "nat \<Rightarrow> string" where
  "str_nat n = (if n < 10 then [char_of (48 + n)]
                else str_nat (n div 10) @ [char_of (48 + n mod 10)])"

declare str_nat.simps [simp del]

definition str_int :: "int \<Rightarrow> string" where
  "str_int i = (if i < 0 then CHR ''-'' # str_nat (nat (- i)) else str_nat (nat i))"

definition str_past :: "past \<Rightarrow> string" where
  "str_past p = (case p of PastStr s \<Rightarrow> s | PastInt i \<Rightarrow> str_int i)"

definition stack_hash :: "Stack \<Rightarrow> string" where
  "stack_hash s =
     (let type_str = (case card_type s of TStack \<Rightarrow> ''S'' | TFreecell \<Rightarrow> ''F'');
          card_str = (case stack s of
                        Cards cs \<Rightarrow> concat (map str_card cs)
                      | X \<Rightarrow> ''X['' @ str_past (past_cards s) @ '']'')
      in type_str @ card_str)"

definition init_cards :: "Stack \<Rightarrow> card list \<Rightarrow> error + Stack" where
  "init_cards s cards =
     (if truthy (stack s) then Inl IllegalInit
      else if card_type s = TFreecell then Inl IllegalInit
      else Inr (s\<lparr>stack := Cards cards\<rparr>))"

text \<open>
  \<^verbatim>\<open>is_move_to_legal\<close> reads \<^verbatim>\<open>self.stack[-1]\<close> and then \<^verbatim>\<open>card[0]\<close>: an empty run raises
  IndexError there, and the marker's last element, the one-symbol string \<^verbatim>\<open>"X"\<close>, makes
  \<^verbatim>\<open>compatible\<close> raise ValueError.
\<close>

definition is_move_to_legal :: "Stack \<Rightarrow> card list \<Rightarrow> error + bool" where
  "is_move_to_legal s cards =
     (if locked s then Inr False
      else if card_type s = TFreecell \<and> truthy (stack s) then Inr False
      else if card_type s = TFreecell \<and> length cards > 1 then Inr False
      else if card_type s = TStack \<and> truthy (stack s) then
        (case cards of
           [] \<Rightarrow> Inl IndexError
         | c # _ \<Rightarrow>
             (case stack s of
                X \<Rightarrow> Inl ValueError
              | Cards cs \<Rightarrow> if \<not> compatible (last cs) c then Inr False else Inr True))
      else Inr True)"

definition is_move_from_legal :: "Stack \<Rightarrow> bool" where
  "is_move_from_legal s =
     (if locked s then False
      else if \<not> truthy (stack s) then False
      else True)"

text \<open>
  \<^verbatim>\<open>which_cards_moving\<close>, on the list of cards that the stack holds. Its loop: the first
  argument is what is left of the stack below the cards taken so far, nearest first
  (\<^verbatim>\<open>stack[i]\<close> for \<^verbatim>\<open>i\<close> going down), the second is \<^verbatim>\<open>card_move\<close>. On the empty list
  \<^verbatim>\<open>self.stack[-1]\<close> raises IndexError.
\<close>

fun which_cards_loop :: "card list \<Rightarrow> card list \<Rightarrow> card list" where
  "which_cards_loop [] card_move = card_move"
| "which_cards_loop (c # below) card_move =
     (if \<not> compatible c (last card_move) then card_move
      else which_cards_loop below (card_move @ [c]))"

definition which_cards_moving :: "card list \<Rightarrow> error + card list" where
  "which_cards_moving cs =
     (case rev cs of
        [] \<Rightarrow> Inl IndexError
      | t # below \<Rightarrow> Inr (rev (which_cards_loop below [t])))"

text \<open>
  \<^verbatim>\<open>resolve_move_from(max_stack)\<close> returns the cards that leave and changes the stack; the
  model returns both. \<^verbatim>\<open>self.stack[-max_stack:]\<close> is the last \<^verbatim>\<open>max_stack\<close> cards, all of
  them when there are fewer. A stack that holds the marker is locked wherever the program
  stores the marker (\<^verbatim>\<open>resolve_move_to\<close>, \<^verbatim>\<open>exact_setup\<close>), so the legality test stops it
  before its content is read; for the marker without the lock, where Python would take the
  marker string itself for a card, the model has TypeError.
\<close>

definition resolve_move_from :: "Stack \<Rightarrow> nat \<Rightarrow> error + (card list \<times> Stack)" where
  "resolve_move_from s max_stack =
     (if \<not> is_move_from_legal s then Inl IllegalMove
      else case stack s of
        X \<Rightarrow> Inl TypeError
      | Cards cs \<Rightarrow>
          (case (if max_stack = 0 then which_cards_moving cs
                 else Inr (drop (length cs - max_stack) cs)) of
             Inl e \<Rightarrow> Inl e
           | Inr card_move \<Rightarrow>
               let remaining_keep = length cs - length card_move
               in Inr (card_move,
                       if length card_move = length cs then s\<lparr>stack := Cards []\<rparr>
                       else s\<lparr>stack := Cards (take remaining_keep cs)\<rparr>)))"

text \<open>
  \<^verbatim>\<open>resolve_move_to\<close>: \<^verbatim>\<open>self.stack + card\<close> on the marker would be a string plus a list,
  a TypeError; the legality test never lets it come to that.
\<close>

definition resolve_move_to :: "Stack \<Rightarrow> card list \<Rightarrow> error + Stack" where
  "resolve_move_to s cards =
     (case is_move_to_legal s cards of
        Inl e \<Rightarrow> Inl e
      | Inr legal \<Rightarrow>
          if \<not> legal then Inl IllegalMove
          else case stack s of
            X \<Rightarrow> Inl TypeError
          | Cards cs \<Rightarrow>
              let new = cs @ cards
              in if length new = 4 \<and> new = replicate 4 (new ! 0) \<and> new ! 0 \<in> set face_cards
                 then Inr (s\<lparr>locked := True, past_cards := PastStr (str_card (new ! 0)),
                            stack := X\<rparr>)
                 else Inr (s\<lparr>stack := Cards new\<rparr>))"

definition complete_red :: "card list" where
  "complete_red = [(CHR ''0'', CHR ''R''), (CHR ''9'', CHR ''B''), (CHR ''8'', CHR ''R''),
                   (CHR ''7'', CHR ''B''), (CHR ''6'', CHR ''R'')]"

definition complete_black :: "card list" where
  "complete_black = [(CHR ''0'', CHR ''B''), (CHR ''9'', CHR ''R''), (CHR ''8'', CHR ''B''),
                     (CHR ''7'', CHR ''R''), (CHR ''6'', CHR ''B'')]"

definition stack_is_complete :: "Stack \<Rightarrow> bool" where
  "stack_is_complete s =
     (if stack s = X then True
      else if stack s = Cards complete_red \<or> stack s = Cards complete_black then True
      else False)"

section \<open>Games\<close>

record Game =
  stacks :: "Stack list"
  card_stacks :: nat
  depth :: nat
  max_depth :: int
  move_history :: "(nat \<times> nat) list"
  score :: int

text \<open>\<^verbatim>\<open>Game(card_stacks=9, freecells=1, max_depth=100)\<close>.\<close>

definition new_Game :: "nat \<Rightarrow> nat \<Rightarrow> int \<Rightarrow> Game" where
  "new_Game n_stacks freecells md =
     \<lparr>stacks = replicate n_stacks (new_Stack TStack False) @
               replicate freecells (new_Stack TFreecell False),
      card_stacks = n_stacks, depth = 0, max_depth = md, move_history = [], score = 0\<rparr>"

text \<open>
  \<^verbatim>\<open>Game.hash\<close>: one chunk per stack, its hash followed by \<^verbatim>\<open>"/"\<close>; the chunks are sorted
  (Python compares strings symbol by symbol, a proper prefix first) and joined.
\<close>

definition game_hash :: "Game \<Rightarrow> string" where
  "game_hash g =
     (let stack_chunks = map (\<lambda>s. stack_hash s @ ''/'') (stacks g)
      in concat (sort stack_chunks))"

subsection \<open>Reading a game back from a hash\<close>

text \<open>
  \<^verbatim>\<open>str.split(sep)\<close> for a separator of one symbol; the second argument is the piece
  read so far.
\<close>

fun split_from :: "char \<Rightarrow> string \<Rightarrow> string \<Rightarrow> string list" where
  "split_from sep piece [] = [piece]"
| "split_from sep piece (c # cs) =
     (if c = sep then piece # split_from sep [] cs
      else split_from sep (piece @ [c]) cs)"

definition split_on :: "char \<Rightarrow> string \<Rightarrow> string list" where
  "split_on sep s = split_from sep [] s"

text \<open>
  \<^verbatim>\<open>int(s)\<close> of a Python 3 string whose symbols are the code points 0 to 255: white
  space around the number is dropped, a sign may come first, then decimal digits, a
  single underscore allowed between two digits. The white space that \<^verbatim>\<open>int\<close> drops is
  tab, line feed, vertical tab, form feed, carriage return and space, and beyond ASCII
  the next-line symbol (133) and the no-break space (160); the separators 28 to 31 are
  not dropped and make \<^verbatim>\<open>int\<close> raise.
\<close>

definition py_isspace :: "char \<Rightarrow> bool" where
  "py_isspace c = ((of_char c :: nat) \<in> {9, 10, 11, 12, 13, 32, 133, 160})"

definition py_isdigit :: "char \<Rightarrow> bool" where
  "py_isdigit c = (48 \<le> (of_char c :: nat) \<and> (of_char c :: nat) \<le> 57)"

definition py_strip :: "string \<Rightarrow> string" where
  "py_strip s = rev (dropWhile py_isspace (rev (dropWhile py_isspace s)))"

fun digits_ok :: "string \<Rightarrow> bool" where
  "digits_ok [] = False"
| "digits_ok [c] = py_isdigit c"
| "digits_ok (c # d # r) =
     (py_isdigit c \<and> (if d = CHR ''_'' then digits_ok r else digits_ok (d # r)))"

definition digits_val :: "string \<Rightarrow> int" where
  "digits_val ds = foldl (\<lambda>a c. 10 * a + int_of_digit c) 0 (filter py_isdigit ds)"

definition py_int :: "string \<Rightarrow> error + int" where
  "py_int s =
     (let t = py_strip s;
          neg = (t \<noteq> [] \<and> hd t = CHR ''-'');
          ds = (if t \<noteq> [] \<and> (hd t = CHR ''-'' \<or> hd t = CHR ''+'') then tl t else t)
      in if digits_ok ds then Inr (if neg then - digits_val ds else digits_val ds)
         else Inl ValueError)"

text \<open>
  The pieces of a token as the source slices them,
  \<^verbatim>\<open>[stack[(1 + i):(1 + i + 2)] for i in range(0, len(stack[1:]), 2)]\<close>: two symbols
  each, and a last piece of one symbol when the number of symbols is odd.
\<close>

fun pieces :: "string \<Rightarrow> string list" where
  "pieces [] = []"
| "pieces [c] = [[c]]"
| "pieces (r # s # rest) = [r, s] # pieces rest"

text \<open>
  The source does not look at the pieces. A piece of two symbols is a card; a piece of
  one symbol is a string that the type of cards does not hold.
\<close>

definition as_card :: "string \<Rightarrow> card option" where
  "as_card p = (case p of [r, s] \<Rightarrow> Some (r, s) | _ \<Rightarrow> None)"

text \<open>
  The body of the loop of \<^verbatim>\<open>exact_setup\<close>, for one non-empty token. The result is
  \<^verbatim>\<open>Some (Inl e)\<close> when the source raises, \<^verbatim>\<open>Some (Inr s)\<close> when it builds the stack
  \<^verbatim>\<open>s\<close>, and \<^verbatim>\<open>None\<close> when it builds a stack with a piece of one symbol among its cards,
  which is no value of the record of stacks.
\<close>

definition decode_stack :: "string \<Rightarrow> (error + Stack) option" where
  "decode_stack tok =
     (let stack_type = (if hd tok = CHR ''S'' then TStack else TFreecell)
      in if length tok = 1 then Some (Inr ((new_Stack stack_type False)\<lparr>stack := Cards []\<rparr>))
         else if \<not> (hd (tl tok) = CHR ''X'') then
           (case those (map as_card (pieces (tl tok))) of
              None \<Rightarrow> None
            | Some cards \<Rightarrow> Some (Inr ((new_Stack stack_type False)\<lparr>stack := Cards cards\<rparr>)))
         else
           (case py_int (take 2 (drop 3 tok)) of
              Inl e \<Rightarrow> Some (Inl e)
            | Inr past_card \<Rightarrow>
                let new_stack = (new_Stack stack_type True)\<lparr>stack := X\<rparr>
                in if past_card > -1
                   then Some (Inr (new_stack\<lparr>past_cards := PastInt past_card\<rparr>))
                   else Some (Inr new_stack)))"

text \<open>
  The loop over the tokens, from left to right: it raises at the first token that
  raises, whatever the tokens before it gave.
\<close>

fun decode_stacks :: "string list \<Rightarrow> (error + Stack list) option" where
  "decode_stacks [] = Some (Inr [])"
| "decode_stacks (tok # toks) =
     (case decode_stack tok of
        Some (Inl e) \<Rightarrow> Some (Inl e)
      | Some (Inr s) \<Rightarrow>
          (case decode_stacks toks of
             Some (Inl e) \<Rightarrow> Some (Inl e)
           | Some (Inr ss) \<Rightarrow> Some (Inr (s # ss))
           | None \<Rightarrow> None)
      | None \<Rightarrow>
          (case decode_stacks toks of
             Some (Inl e) \<Rightarrow> Some (Inl e)
           | Some (Inr ss) \<Rightarrow> None
           | None \<Rightarrow> None))"

definition exact_setup :: "Game \<Rightarrow> string \<Rightarrow> (error + Game) option" where
  "exact_setup g hash_text =
     (let stack_hashes = filter (\<lambda>x. length x \<noteq> 0) (split_on CHR ''/'' hash_text)
      in case decode_stacks stack_hashes of
           Some (Inl e) \<Rightarrow> Some (Inl e)
         | Some (Inr stack_set) \<Rightarrow> Some (Inr (g\<lparr>stacks := stack_set\<rparr>))
         | None \<Rightarrow> None)"

subsection \<open>Score\<close>

text \<open>
  \<^verbatim>\<open>next((j + 1 for j in range(len(stack) - 2, -1, -1)
         if not compatible(stack[j], stack[j + 1])), 0)\<close>
\<close>

definition num_cards_trapped :: "card list \<Rightarrow> nat" where
  "num_cards_trapped cs =
     (case find (\<lambda>j. \<not> compatible (cs ! j) (cs ! (j + 1))) (rev [0 ..< length cs - 1]) of
        None \<Rightarrow> 0
      | Some j \<Rightarrow> j + 1)"

text \<open>One round of the loop over the stacks in \<^verbatim>\<open>get_score\<close>, on the running score.\<close>

definition score_step :: "Stack \<Rightarrow> int \<Rightarrow> int" where
  "score_step i sc =
     (if stack_is_complete i then sc + 20
      else if card_type i = TStack \<and> \<not> truthy (stack i) then sc + 10
      else if card_type i = TStack \<and> truthy (stack i) then
        (if py_len (stack i) = 5 \<and>
            (stack i = Cards complete_red \<or> stack i = Cards complete_black)
         then 10
         else case stack i of
                Cards cs \<Rightarrow> sc + 5 - int (num_cards_trapped cs)
              | X \<Rightarrow> sc + 5)
      else sc)"

text \<open>
  \<^verbatim>\<open>get_score(override)\<close> returns the score and stores it in the game. (The marker is
  complete, so the last branch of \<^verbatim>\<open>score_step\<close> never sees it.)
\<close>

definition get_score :: "Game \<Rightarrow> bool \<Rightarrow> int \<times> Game" where
  "get_score g override =
     (if score g \<noteq> 0 \<and> \<not> override then (score g, g)
      else let sc = fold score_step (stacks g) 0 in (sc, g\<lparr>score := sc\<rparr>))"

definition game_is_complete :: "Game \<Rightarrow> bool" where
  "game_is_complete g =
     (let num_complete =
            sum_list (map (\<lambda>s. if stack_is_complete s then (1::nat) else 0) (stacks g))
      in num_complete = 8)"

subsection \<open>Moves\<close>

text \<open>
  The test of the inner loop of \<^verbatim>\<open>enumerate_moves\<close>: the origin \<^verbatim>\<open>j\<close> can give, and the
  destination \<^verbatim>\<open>i\<close> takes the first card of the cards that would move, as a run of one.
  An origin that passes \<^verbatim>\<open>is_move_from_legal\<close> holds a non-empty list of cards unless it
  holds the marker without the lock, which no stack of the program does; the model has
  no move from such a stack, and none to one (where Python raises).
\<close>

definition move_test :: "Game \<Rightarrow> nat \<Rightarrow> nat \<Rightarrow> bool" where
  "move_test g i j =
     (is_move_from_legal (stacks g ! j) \<and>
      (case stack (stacks g ! j) of
         X \<Rightarrow> False
       | Cards cs \<Rightarrow>
           (case which_cards_moving cs of
              Inl e \<Rightarrow> False
            | Inr run \<Rightarrow>
                (case run of
                   [] \<Rightarrow> False
                 | c # _ \<Rightarrow> is_move_to_legal (stacks g ! i) [c] = Inr True))))"

definition inner_step :: "Game \<Rightarrow> nat \<Rightarrow> nat \<Rightarrow> (nat \<times> nat) list \<Rightarrow> (nat \<times> nat) list" where
  "inner_step g i j valid_moves =
     (if j = i then valid_moves
      else if move_history g \<noteq> [] \<and> last (move_history g) = (i, j) then valid_moves
      else if move_test g i j then valid_moves @ [(j, i)]
      else valid_moves)"

definition outer_step :: "Game \<Rightarrow> nat \<Rightarrow> (nat \<times> nat) list \<Rightarrow> (nat \<times> nat) list" where
  "outer_step g i valid_moves =
     (if locked (stacks g ! i) then valid_moves
      else fold (inner_step g i) [0 ..< length (stacks g)] valid_moves)"

definition enumerate_moves :: "Game \<Rightarrow> (nat \<times> nat) list" where
  "enumerate_moves g = fold (outer_step g) [0 ..< length (stacks g)] []"

definition is_dead :: "Game \<Rightarrow> bool" where
  "is_dead g = (length (enumerate_moves g) = 0)"

subsection \<open>Children of a game\<close>

text \<open>
  The body of the loop of \<^verbatim>\<open>solve\<close> for the move \<^verbatim>\<open>(i, j)\<close>: the child is a deep copy of
  the game, changed in place, the origin first and then the destination.
\<close>

definition make_child :: "Game \<Rightarrow> nat \<times> nat \<Rightarrow> error + Game" where
  "make_child g move =
     (case move of (i, j) \<Rightarrow>
        if \<not> j < length (stacks g) then Inl IndexError
        else if \<not> i < length (stacks g) then Inl IndexError
        else
          (case resolve_move_from (stacks g ! i)
                  (if card_type (stacks g ! j) = TFreecell then 1 else 0) of
             Inl e \<Rightarrow> Inl e
           | Inr (cards_move, origin) \<Rightarrow>
               let stacks1 = (stacks g)[i := origin]
               in (case resolve_move_to (stacks1 ! j) cards_move of
                     Inl e \<Rightarrow> Inl e
                   | Inr destination \<Rightarrow>
                       let new_game = g\<lparr>stacks := stacks1[j := destination],
                                        depth := depth g + 1,
                                        move_history := move_history g @ [move]\<rparr>
                       in Inr (snd (get_score new_game True)))))"

fun children :: "Game \<Rightarrow> (nat \<times> nat) list \<Rightarrow> Game list \<Rightarrow> error + Game list" where
  "children g [] results = Inr results"
| "children g (move # valid_moves) results =
     (case make_child g move of
        Inl e \<Rightarrow> Inl e
      | Inr new_game \<Rightarrow> children g valid_moves (results @ [new_game]))"

text \<open>\<^verbatim>\<open>solve\<close> returns \<^verbatim>\<open>None\<close> or the list of the children, or raises.\<close>

definition solve :: "Game \<Rightarrow> error + Game list option" where
  "solve g =
     (if int (depth g) > max_depth g then Inr None
      else if game_is_complete g then Inl SolveComplete
      else if is_dead g \<and> depth g > 0 then Inr None
      else case children g (enumerate_moves g) [] of
             Inl e \<Rightarrow> Inl e
           | Inr results \<Rightarrow>
               if depth g = 0 \<and> results = [] then Inl ImpossibleToSolve
               else if results = [] then Inr None
               else Inr (Some results))"

subsection \<open>Replay\<close>

text \<open>
  \<^verbatim>\<open>play_game\<close> replays the moves on the game itself and returns, for each move, the two
  stack indices with their row offsets. What it prints is left out.
\<close>

type_synonym fixed_move = "nat \<times> int \<times> nat \<times> int"

fun play_moves :: "Game \<Rightarrow> (nat \<times> nat) list \<Rightarrow> fixed_move list \<Rightarrow> error + fixed_move list"
  where
  "play_moves g [] fixed_moves = Inr fixed_moves"
| "play_moves g ((i, j) # moves) fixed_moves =
     (if \<not> j < length (stacks g) then Inl IndexError
      else if \<not> i < length (stacks g) then Inl IndexError
      else
        (case resolve_move_from (stacks g ! i)
                (if card_type (stacks g ! j) = TFreecell then 1 else 0) of
           Inl e \<Rightarrow> Inl e
         | Inr (cards_move, origin) \<Rightarrow>
             let stacks1 = (stacks g)[i := origin];
                 y_offset_pre = int (py_len (stack origin)) - int (length cards_move);
                 y_offset_post = max 0 (int (py_len (stack (stacks1 ! j))) - 1)
             in (case resolve_move_to (stacks1 ! j) cards_move of
                   Inl e \<Rightarrow> Inl e
                 | Inr destination \<Rightarrow>
                     play_moves (g\<lparr>stacks := stacks1[j := destination]\<rparr>) moves
                       (fixed_moves @ [(i, y_offset_pre, j, y_offset_post)]))))"

definition play_game :: "Game \<Rightarrow> (nat \<times> nat) list \<Rightarrow> error + fixed_move list" where
  "play_game g moves = (if moves = [] then Inl NoMoves else play_moves g moves [])"

subsection \<open>Search\<close>

text \<open>
  The part of the loop of \<^verbatim>\<open>global_solve\<close> that prints: it calls \<^verbatim>\<open>get_score\<close> on the
  current game, which stores the score there, and keeps the largest depth and score
  printed so far.
\<close>

definition report :: "int \<Rightarrow> Game \<Rightarrow> nat \<Rightarrow> int \<Rightarrow> Game \<times> nat \<times> int" where
  "report print_level current shown_depth shown_score =
     (if print_level > 0 then
        (let current1 = snd (get_score current False)
         in if fst (get_score current False) > shown_score \<or> depth current > shown_depth \<or>
               print_level = 2
            then (current1, max shown_depth (depth current1),
                  max shown_score (fst (get_score current1 False)))
            else (current1, shown_depth, shown_score))
      else (current, shown_depth, shown_score))"

text \<open>
  \<^verbatim>\<open>sorted(nodes_to_visit, key=lambda k: -k.get_score())\<close>: a stable sort; the key stores
  the score in each game it is asked about.
\<close>

definition resort :: "Game list \<Rightarrow> Game list" where
  "resort nodes =
     sort_key (\<lambda>k. - fst (get_score k False)) (map (\<lambda>k. snd (get_score k False)) nodes)"

text \<open>
  The loop of \<^verbatim>\<open>global_solve\<close>. It ends when the queue is empty (the game cannot be
  solved: the empty list) or a complete game is found; the result is \<^verbatim>\<open>None\<close> when it
  runs for ever.
\<close>

partial_function (option) search ::
  "Game \<Rightarrow> int \<Rightarrow> Game list \<Rightarrow> string list \<Rightarrow> nat \<Rightarrow> int \<Rightarrow> (error + fixed_move list) option"
  where
  "search root print_level nodes_to_visit visited_nodes shown_depth shown_score =
     (case nodes_to_visit of
        [] \<Rightarrow> Some (Inr [])
      | current # rest \<Rightarrow>
          if game_hash current \<in> set visited_nodes
          then search root print_level rest visited_nodes shown_depth shown_score
          else
            (case report print_level current shown_depth shown_score of
               (current1, shown_depth1, shown_score1) \<Rightarrow>
                 if game_is_complete current1
                 then Some (play_game root (move_history current1))
                 else
                   (case solve current1 of
                      Inl e \<Rightarrow> Some (Inl e)
                    | Inr None \<Rightarrow>
                        search root print_level rest
                          (visited_nodes @ [game_hash current1]) shown_depth1 shown_score1
                    | Inr (Some results) \<Rightarrow>
                        search root print_level (resort (rest @ results))
                          (visited_nodes @ [game_hash current1]) shown_depth1 shown_score1)))"

definition global_solve :: "Game \<Rightarrow> int \<Rightarrow> (error + fixed_move list) option" where
  "global_solve g print_level =
     (if depth g > 0 then Some (Inl NotTopLevel)
      else search g print_level [g] [] 0 0)"

subsection \<open>The score as the specification words it\<close>

text \<open>
  The top run of a list of cards, and the score of one stack: 20 for a complete stack,
  nothing for a free cell that is not complete, 10 for an empty stack, and for a stack
  with cards 5 less the number of cards below its top run.
\<close>

definition top_run :: "card list \<Rightarrow> card list" where
  "top_run cs = (case which_cards_moving cs of Inl e \<Rightarrow> [] | Inr run \<Rightarrow> run)"

definition stack_score_spec :: "Stack \<Rightarrow> int" where
  "stack_score_spec s =
     (if stack_is_complete s then 20
      else if card_type s = TFreecell then 0
      else case stack s of
             X \<Rightarrow> 20
           | Cards cs \<Rightarrow>
               if cs = [] then 10
               else 5 - (int (length cs) - int (length (top_run cs))))"

subsection \<open>Symbols of a hash\<close>

text \<open>
  A string all of whose symbols come after the stroke \<^verbatim>\<open>"/"\<close> in the order of the
  symbols, as the letters and digits of the cards and the brackets of the marker do.
\<close>

definition above_stroke :: "string \<Rightarrow> bool" where
  "above_stroke h = list_all (\<lambda>c. CHR ''/'' < c) h"

subsection \<open>Well-formed games\<close>

text \<open>
  The program stores the marker only together with the lock (\<^verbatim>\<open>resolve_move_to\<close>,
  \<^verbatim>\<open>exact_setup\<close>) and never takes the lock away: in every game it builds, a stack that
  holds the marker is locked.
\<close>

definition well_formed_stack :: "Stack \<Rightarrow> bool" where
  "well_formed_stack s = (stack s = X \<longrightarrow> locked s)"

definition well_formed :: "Game \<Rightarrow> bool" where
  "well_formed g = list_all well_formed_stack (stacks g)"

subsection \<open>Moves as the specification words them\<close>

text \<open>
  A run is a maximal suffix of the stack, the top of the stack being its last card, in
  which each card is compatible with the card that lies on it. \<^verbatim>\<open>maximal_run\<close> tries
  the suffixes from the longest on and takes the first in which all neighbours are
  compatible.
\<close>

fun maximal_run :: "card list \<Rightarrow> card list" where
  "maximal_run [] = []"
| "maximal_run (c # cs) =
     (if successively compatible (c # cs) then c # cs else maximal_run cs)"

text \<open>
  The bottom card of the run of a stack is the first card of that suffix. The move from
  \<^verbatim>\<open>src\<close> to \<^verbatim>\<open>dst\<close> is listed when: the stacks differ, the destination is not locked, the
  move does not undo the last move of the history, the origin can give, and the
  destination takes the bottom card of the run as a run of one.
\<close>

definition cards_of :: "Stack \<Rightarrow> card list" where
  "cards_of s = (case stack s of Cards cs \<Rightarrow> cs | X \<Rightarrow> [])"

definition run_bottom :: "Stack \<Rightarrow> card" where
  "run_bottom s = hd (maximal_run (cards_of s))"

definition move_allowed :: "Game \<Rightarrow> nat \<Rightarrow> nat \<Rightarrow> bool" where
  "move_allowed g src dst =
     (src \<noteq> dst \<and>
      \<not> locked (stacks g ! dst) \<and>
      \<not> (move_history g \<noteq> [] \<and> last (move_history g) = (dst, src)) \<and>
      is_move_from_legal (stacks g ! src) \<and>
      is_move_to_legal (stacks g ! dst) [run_bottom (stacks g ! src)] = Inr True)"

text \<open>The order of the list: by destination, then by origin.\<close>

definition move_before :: "nat \<times> nat \<Rightarrow> nat \<times> nat \<Rightarrow> bool" where
  "move_before m m' = (snd m < snd m' \<or> (snd m = snd m' \<and> fst m < fst m'))"

text \<open>What one round of the outer loop of \<^verbatim>\<open>enumerate_moves\<close> adds for the destination \<^verbatim>\<open>i\<close>.\<close>

definition moves_to :: "Game \<Rightarrow> nat \<Rightarrow> (nat \<times> nat) list" where
  "moves_to g i =
     (if locked (stacks g ! i) then []
      else map (\<lambda>j. (j, i))
        (filter (\<lambda>j. j \<noteq> i \<and> \<not> (move_history g \<noteq> [] \<and> last (move_history g) = (i, j)) \<and>
                     move_test g i j) [0 ..< length (stacks g)]))"

subsection \<open>Counting cards\<close>

text \<open>The cards of a stack, four for a collapsed one, and of a game.\<close>

definition card_count :: "Stack \<Rightarrow> nat" where
  "card_count s = (case stack s of Cards cs \<Rightarrow> length cs | X \<Rightarrow> 4)"

definition total_cards :: "Game \<Rightarrow> nat" where
  "total_cards g = sum_list (map card_count (stacks g))"

subsection \<open>Operations on a stack\<close>

text \<open>
  The three methods that change a stack. Each raises before it changes anything, so the
  stack after a call that raised is the stack before it.
\<close>

datatype stack_op = MoveTo "card list" | MoveFrom nat | InitCards "card list"

fun apply_op :: "Stack \<Rightarrow> stack_op \<Rightarrow> Stack" where
  "apply_op s (MoveTo run) = (case resolve_move_to s run of Inl e \<Rightarrow> s | Inr s' \<Rightarrow> s')"
| "apply_op s (MoveFrom max_stack) =
     (case resolve_move_from s max_stack of Inl e \<Rightarrow> s | Inr (run, s') \<Rightarrow> s')"
| "apply_op s (InitCards cards) = (case init_cards s cards of Inl e \<Rightarrow> s | Inr s' \<Rightarrow> s')"

text \<open>Four copies of one face card, and the stack after its collapse on that card.\<close>

definition four_of_a_face :: "card list \<Rightarrow> bool" where
  "four_of_a_face cs = (\<exists>c \<in> set face_cards. cs = replicate 4 c)"

definition collapse :: "Stack \<Rightarrow> card \<Rightarrow> Stack" where
  "collapse s c = s\<lparr>locked := True, past_cards := PastStr (str_card c), stack := X\<rparr>"

subsection \<open>Fully collapsed games\<close>

text \<open>A game all of whose stacks hold the marker.\<close>

definition fully_collapsed :: "Game \<Rightarrow> bool" where
  "fully_collapsed g = list_all (\<lambda>s. stack s = X) (stacks g)"

section \<open>Concrete games\<close>

text \<open>The game \<^verbatim>\<open>Game()\<close> of the front end, before any card is dealt.\<close>

definition fresh_game :: Game where
  "fresh_game = new_Game 9 1 100"

text \<open>The texts of eight and of nine collapsed stacks, and the games they are read into.\<close>

definition eight_text :: string where
  "eight_text = ''SX[00]/SX[00]/SX[00]/SX[00]/SX[00]/SX[00]/SX[00]/SX[00]/''"

definition nine_text :: string where
  "nine_text = ''SX[00]/SX[00]/SX[00]/SX[00]/SX[00]/SX[00]/SX[00]/SX[00]/SX[00]/''"

definition collapsed_stacks :: "nat \<Rightarrow> Game" where
  "collapsed_stacks k =
     \<lparr>stacks = replicate k \<lparr>card_type = TStack, locked = True, stack = X,
                              past_cards = PastInt 0\<rparr>,
      card_stacks = 9, depth = 0, max_depth = 100, move_history = [], score = 0\<rparr>"

text \<open>The game before the deal with a depth cutoff below zero, \<^verbatim>\<open>Game(max_depth=-1)\<close>.\<close>

definition shallow_game :: Game where
  "shallow_game = new_Game 9 1 (- 1)"

text \<open>Two games with the same two stacks in either order.\<close>

definition ab_game :: Game where
  "ab_game = fresh_game\<lparr>stacks :=
      [(new_Stack TStack False)\<lparr>stack := Cards [(CHR ''9'', CHR ''B''), (CHR ''8'', CHR ''R'')]\<rparr>,
       new_Stack TFreecell False]\<rparr>"

definition ba_game :: Game where
  "ba_game = fresh_game\<lparr>stacks :=
      [new_Stack TFreecell False,
       (new_Stack TStack False)\<lparr>stack := Cards [(CHR ''9'', CHR ''B''), (CHR ''8'', CHR ''R'')]\<rparr>]\<rparr>"

text \<open>A stack whose top run of two cards lies on two other cards.\<close>

definition trapped_game :: Game where
  "trapped_game = fresh_game\<lparr>stacks :=
      [(new_Stack TStack False)\<lparr>stack := Cards [(CHR ''9'', CHR ''B''), (CHR ''6'', CHR ''R''),
                                                 (CHR ''8'', CHR ''B''), (CHR ''7'', CHR ''R'')]\<rparr>,
       new_Stack TFreecell False]\<rparr>"

text \<open>Three face cards waiting for the fourth, and the stack after the collapse.\<close>

definition three_faces :: Stack where
  "three_faces = (new_Stack TStack False)\<lparr>stack :=
     Cards [(CHR ''H'', CHR ''H''), (CHR ''H'', CHR ''H''), (CHR ''H'', CHR ''H'')]\<rparr>"

definition collapsed_faces :: Stack where
  "collapsed_faces = \<lparr>card_type = TStack, locked = True, stack = X, past_cards = PastStr ''HH''\<rparr>"

text \<open>A game one move before a collapse, and its child by the move from stack 1 to stack 0.\<close>

definition collapsing_game :: Game where
  "collapsing_game = fresh_game\<lparr>stacks := [three_faces,
      (new_Stack TStack False)\<lparr>stack := Cards [(CHR ''H'', CHR ''H'')]\<rparr>]\<rparr>"

definition collapsed_child :: Game where
  "collapsed_child =
     \<lparr>stacks = [collapsed_faces, new_Stack TStack False],
      card_stacks = 9, depth = 1, max_depth = 100, move_history = [(1, 0)], score = 30\<rparr>"

text \<open>The game of the text \<^verbatim>\<open>"S9B8R7B6R/S/F/"\<close>.\<close>

definition example_game :: Game where
  "example_game = fresh_game\<lparr>stacks :=
      [(new_Stack TStack False)\<lparr>stack := Cards [(CHR ''9'', CHR ''B''), (CHR ''8'', CHR ''R''),
                                                 (CHR ''7'', CHR ''B''), (CHR ''6'', CHR ''R'')]\<rparr>,
       new_Stack TStack False, new_Stack TFreecell False]\<rparr>"

text \<open>
  Three stacks, \<^verbatim>\<open>"S9B8R/S0R/S9R/"\<close>: the run of the first is both its cards, and its
  bottom card, not its top card, goes on the second.
\<close>

definition order_game :: Game where
  "order_game = fresh_game\<lparr>stacks :=
      [(new_Stack TStack False)\<lparr>stack := Cards [(CHR ''9'', CHR ''B''), (CHR ''8'', CHR ''R'')]\<rparr>,
       (new_Stack TStack False)\<lparr>stack := Cards [(CHR ''0'', CHR ''R'')]\<rparr>,
       (new_Stack TStack False)\<lparr>stack := Cards [(CHR ''9'', CHR ''R'')]\<rparr>]\<rparr>"

section \<open>Theorems\<close>

subsection \<open>Helper lemmas\<close>

lemma valid_card_cases:
  "valid_card c \<longleftrightarrow>
     c \<in> {(CHR ''H'', CHR ''H''), (CHR ''S'', CHR ''S''), (CHR ''C'', CHR ''C''),
          (CHR ''D'', CHR ''D''),
          (CHR ''0'', CHR ''B''), (CHR ''0'', CHR ''R''), (CHR ''9'', CHR ''B''),
          (CHR ''9'', CHR ''R''), (CHR ''8'', CHR ''B''), (CHR ''8'', CHR ''R''),
          (CHR ''7'', CHR ''B''), (CHR ''7'', CHR ''R''), (CHR ''6'', CHR ''B''),
          (CHR ''6'', CHR ''R'')}"
  unfolding valid_card_def game_face_cards_def number_cards_def face_cards_def
  by (auto simp: numeral_eq_Suc)

lemma valid_9B: "valid_card (CHR ''9'', CHR ''B'')"
  by (simp add: valid_card_cases)

lemma valid_8R: "valid_card (CHR ''8'', CHR ''R'')"
  by (simp add: valid_card_cases)

lemma enumerate_moves_cong:
  assumes "stacks g' = stacks g" and "move_history g' = move_history g"
  shows "enumerate_moves g' = enumerate_moves g"
proof -
  have t: "move_test g' = move_test g"
    unfolding fun_eq_iff move_test_def assms by simp
  have i: "inner_step g' = inner_step g"
    by (simp add: fun_eq_iff inner_step_def assms t)
  have "outer_step g' = outer_step g"
    by (simp add: fun_eq_iff outer_step_def assms i)
  then show ?thesis
    by (simp add: enumerate_moves_def assms)
qed

lemma game_is_complete_cong:
  "stacks g' = stacks g \<Longrightarrow> game_is_complete g' = game_is_complete g"
  by (simp add: game_is_complete_def)

lemma get_score_fields:
  "stacks (snd (get_score g b)) = stacks g \<and> depth (snd (get_score g b)) = depth g \<and>
   max_depth (snd (get_score g b)) = max_depth g \<and>
   move_history (snd (get_score g b)) = move_history g"
  by (simp add: get_score_def Let_def)

lemma report_fields:
  assumes "report pl g a b = (g1, a1, b1)"
  shows "stacks g1 = stacks g \<and> depth g1 = depth g \<and> max_depth g1 = max_depth g \<and>
         move_history g1 = move_history g"
  using assms by (auto simp: report_def Let_def get_score_fields split: if_splits)

lemma exact_setup_fields:
  assumes "exact_setup g0 t = Some (Inr g)"
  shows "depth g = depth g0 \<and> move_history g = move_history g0 \<and> max_depth g = max_depth g0"
  using assms by (auto simp: exact_setup_def Let_def split: option.splits sum.splits)

lemma search_complete_root:
  assumes "game_is_complete g" and "move_history g = []"
  shows "search g pl [g] [] a b = Some (Inl NoMoves)"
proof -
  obtain g1 a1 b1 where r: "report pl g a b = (g1, a1, b1)"
    by (cases "report pl g a b") auto
  from report_fields [OF r] have f: "stacks g1 = stacks g" "move_history g1 = move_history g"
    by simp_all
  have c: "game_is_complete g1"
    using assms(1) game_is_complete_cong [OF f(1)] by simp
  show ?thesis
    by (subst search.simps) (simp add: r c f assms play_game_def)
qed

lemma solve_cong:
  assumes "stacks g' = stacks g" and "move_history g' = move_history g"
    and "depth g' = depth g" and "max_depth g' = max_depth g"
    and "solve g = Inl e"
    and "enumerate_moves g = []"
  shows "solve g' = Inl e"
  using assms enumerate_moves_cong [OF assms(1,2)] game_is_complete_cong [OF assms(1)]
  by (simp add: solve_def is_dead_def split: if_splits)

lemma solve_root_no_moves:
  assumes "depth g = 0" and "0 \<le> max_depth g" and "\<not> game_is_complete g"
    and "enumerate_moves g = []"
  shows "solve g = Inl ImpossibleToSolve"
  using assms by (simp add: solve_def is_dead_def)

lemma search_root_no_moves:
  assumes "depth g = 0" and "0 \<le> max_depth g" and "\<not> game_is_complete g"
    and "enumerate_moves g = []"
  shows "search g pl [g] [] a b = Some (Inl ImpossibleToSolve)"
proof -
  obtain g1 a1 b1 where r: "report pl g a b = (g1, a1, b1)"
    by (cases "report pl g a b") auto
  from report_fields [OF r]
  have f: "stacks g1 = stacks g" "move_history g1 = move_history g" "depth g1 = depth g"
    "max_depth g1 = max_depth g"
    by simp_all
  have c: "\<not> game_is_complete g1"
    using assms(3) game_is_complete_cong [OF f(1)] by simp
  have s: "solve g1 = Inl ImpossibleToSolve"
    using solve_cong [OF f solve_root_no_moves [OF assms] assms(4)] .
  show ?thesis
    by (subst search.simps) (simp add: r c s)
qed

lemma fresh_game_facts:
  "well_formed fresh_game"
  "depth fresh_game = 0" "0 \<le> max_depth fresh_game" "\<not> game_is_complete fresh_game"
  "enumerate_moves fresh_game = []"
  by code_simp+

lemma shallow_game_facts:
  "depth shallow_game = 0" "\<not> game_is_complete shallow_game"
  "enumerate_moves shallow_game = []" "solve shallow_game = Inr None"
  "game_hash shallow_game \<notin> set []"
  "report 0 shallow_game 0 0 = (shallow_game, 0, 0)"
  by code_simp+

lemma sort_mset_eq:
  fixes xs ys :: "'a::linorder list"
  assumes "mset xs = mset ys"
  shows "sort xs = sort ys"
  using assms by (metis properties_for_sort sorted_sort mset_sort)

lemma ab_ba_mset: "mset (stacks ab_game) = mset (stacks ba_game)"
  by (simp add: ab_game_def ba_game_def)

lemma trapped_single: "num_cards_trapped [x] = 0"
  by (simp add: num_cards_trapped_def)

lemma trapped_break:
  assumes "\<not> compatible c x"
  shows "num_cards_trapped (pre @ [c, x]) = length pre + 1"
  using assms by (simp add: num_cards_trapped_def nth_append)

lemma trapped_continue:
  assumes "compatible c x"
  shows "num_cards_trapped (pre @ [c, x]) = num_cards_trapped (pre @ [c])"
proof -
  have "find (\<lambda>j. \<not> compatible ((pre @ [c, x]) ! j) ((pre @ [c, x]) ! (j + 1))) (rev [0 ..< length pre])
      = find (\<lambda>j. \<not> compatible ((pre @ [c]) ! j) ((pre @ [c]) ! (j + 1))) (rev [0 ..< length pre])"
    by (rule find_cong) (auto simp: nth_append)
  then show ?thesis
    using assms by (simp add: num_cards_trapped_def nth_append)
qed

lemma which_cards_loop_length:
  assumes "card_move \<noteq> []"
  shows "length (which_cards_loop below card_move) + num_cards_trapped (rev below @ [last card_move])
         = length card_move + length below"
  using assms
proof (induction below arbitrary: card_move)
  case Nil
  then show ?case by (simp add: trapped_single)
next
  case (Cons c below)
  show ?case
  proof (cases "compatible c (last card_move)")
    case True
    have "length (which_cards_loop below (card_move @ [c])) +
          num_cards_trapped (rev below @ [last (card_move @ [c])]) =
          length (card_move @ [c]) + length below"
      by (rule Cons.IH) simp
    then show ?thesis
      using True trapped_continue [OF True, of "rev below"] by simp
  next
    case False
    then show ?thesis
      using trapped_break [OF False, of "rev below"] by simp
  qed
qed

lemma top_run_length:
  assumes "cs \<noteq> []"
  shows "length (top_run cs) + num_cards_trapped cs = length cs"
proof -
  obtain t below where r: "rev cs = t # below"
    using assms by (cases "rev cs") auto
  then have cs: "cs = rev below @ [t]"
    by (metis rev_rev_ident rev.simps(2))
  have "length (which_cards_loop below [t]) + num_cards_trapped (rev below @ [last [t]])
        = length [t] + length below"
    by (rule which_cards_loop_length) simp
  then show ?thesis
    using r cs by (simp add: top_run_def which_cards_moving_def)
qed

lemma score_step_spec: "score_step s a = a + stack_score_spec s"
proof (cases "stack s")
  case (Cards cs)
  show ?thesis
  proof (cases "cs = []")
    case True
    then show ?thesis
      using Cards
      by (simp add: score_step_def stack_score_spec_def stack_is_complete_def truthy_def
          complete_red_def complete_black_def py_len_def) (cases "card_type s"; simp)
  next
    case False
    from top_run_length [OF False]
    have "int (num_cards_trapped cs) = int (length cs) - int (length (top_run cs))"
      by linarith
    then show ?thesis
      using Cards False
      by (cases "card_type s")
        (auto simp: score_step_def stack_score_spec_def stack_is_complete_def truthy_def py_len_def)
  qed
next
  case X
  then show ?thesis
    by (simp add: score_step_def stack_score_spec_def stack_is_complete_def)
qed

lemma fold_score_step: "fold score_step ss a = a + sum_list (map stack_score_spec ss)"
  by (induction ss arbitrary: a) (simp_all add: score_step_spec)

lemma trapped_game_score:
  "score trapped_game = 0" "sum_list (map stack_score_spec (stacks trapped_game)) = 3"
  by code_simp+

lemma maximal_run_chain:
  assumes "successively compatible xs"
  shows "maximal_run xs = xs"
  using assms by (cases xs) simp_all

lemma break_not_chain:
  assumes "\<not> compatible c (hd run)" and "run \<noteq> []"
  shows "\<not> successively compatible (pre @ c # run)"
  using assms by (simp add: successively_append_iff successively_Cons)

lemma maximal_run_break:
  assumes "\<not> compatible c (hd run)" and "run \<noteq> []" and "successively compatible run"
  shows "maximal_run (pre @ c # run) = run"
proof (induction pre)
  case Nil
  show ?case
    using break_not_chain [OF assms(1,2), of "[]"] maximal_run_chain [OF assms(3)] by simp
next
  case (Cons p pre)
  show ?case
    using break_not_chain [OF assms(1,2), of "p # pre"] Cons by simp
qed

lemma which_cards_loop_maximal:
  assumes "card_move \<noteq> []" and "successively compatible (rev card_move)"
  shows "rev (which_cards_loop below card_move) = maximal_run (rev below @ rev card_move)"
  using assms
proof (induction below arbitrary: card_move)
  case Nil
  then show ?case
    by (simp add: maximal_run_chain)
next
  case (Cons c below)
  have hd: "hd (rev card_move) = last card_move"
    using Cons.prems(1) by (simp add: hd_rev)
  show ?case
  proof (cases "compatible c (last card_move)")
    case True
    have "successively compatible (rev (card_move @ [c]))"
      using True hd Cons.prems by (simp add: successively_Cons)
    then have "rev (which_cards_loop below (card_move @ [c])) =
               maximal_run (rev below @ rev (card_move @ [c]))"
      by (intro Cons.IH) simp_all
    then show ?thesis
      using True by simp
  next
    case False
    have "maximal_run (rev below @ c # rev card_move) = rev card_move"
      by (rule maximal_run_break) (use False hd Cons.prems in simp_all)
    then show ?thesis
      using False by simp
  qed
qed

lemma which_cards_moving_maximal:
  assumes "cs \<noteq> []"
  shows "which_cards_moving cs = Inr (maximal_run cs)"
proof -
  obtain t below where r: "rev cs = t # below"
    using assms by (cases "rev cs") auto
  then have cs: "cs = rev below @ [t]"
    by (metis rev_rev_ident rev.simps(2))
  have "rev (which_cards_loop below [t]) = maximal_run (rev below @ rev [t])"
    by (rule which_cards_loop_maximal) simp_all
  then show ?thesis
    using r cs by (simp add: which_cards_moving_def)
qed

lemma top_run_maximal: "top_run cs = maximal_run cs"
proof (cases "cs = []")
  case True
  then show ?thesis
    by (simp add: top_run_def which_cards_moving_def)
next
  case False
  then show ?thesis
    by (simp add: top_run_def which_cards_moving_maximal)
qed

lemma maximal_run_suffix: "\<exists>pre. cs = pre @ maximal_run cs"
proof (induction cs)
  case Nil
  then show ?case by simp
next
  case (Cons c cs)
  then obtain pre where pre: "cs = pre @ maximal_run cs"
    by blast
  show ?case
  proof (cases "successively compatible (c # cs)")
    case True
    then have "c # cs = [] @ maximal_run (c # cs)"
      by simp
    then show ?thesis
      by blast
  next
    case False
    then have "c # cs = (c # pre) @ maximal_run (c # cs)"
      using pre by simp
    then show ?thesis
      by blast
  qed
qed

lemma maximal_run_successively: "successively compatible (maximal_run cs)"
  by (induction cs) simp_all

lemma maximal_run_longest:
  assumes "cs = pre @ run" and "successively compatible run"
  shows "length run \<le> length (maximal_run cs)"
  using assms
proof (induction cs arbitrary: pre)
  case Nil
  then show ?case by simp
next
  case (Cons c cs)
  show ?case
  proof (cases "successively compatible (c # cs)")
    case True
    have "length (c # cs) = length pre + length run"
      using Cons.prems(1) by (metis length_append)
    then show ?thesis
      using True by simp
  next
    case False
    then have "pre \<noteq> []"
      using Cons.prems by auto
    then obtain pre' where "pre = c # pre'" "cs = pre' @ run"
      using Cons.prems(1) by (cases pre) auto
    then show ?thesis
      using False Cons.IH [of pre'] Cons.prems(2) by simp
  qed
qed

lemma maximal_run_nonempty: "cs \<noteq> [] \<Longrightarrow> maximal_run cs \<noteq> []"
  by (induction cs) (auto simp: successively_Cons)

lemma run_bottom_eq:
  assumes "stack s = Cards cs"
  shows "run_bottom s = hd (top_run cs)"
  using assms by (simp add: run_bottom_def cards_of_def top_run_maximal)

lemma top_run_nonempty:
  assumes "cs \<noteq> []"
  shows "\<exists>run. which_cards_moving cs = Inr run \<and> run \<noteq> [] \<and> top_run cs = run"
proof -
  obtain t below where r: "rev cs = t # below"
    using assms by (cases "rev cs") auto
  have "which_cards_loop below cm \<noteq> []" if "cm \<noteq> []" for cm
    using that by (induction below arbitrary: cm) auto
  then show ?thesis
    using r by (simp add: which_cards_moving_def top_run_def)
qed

lemma move_test_allowed:
  assumes "well_formed_stack (stacks g ! j)"
  shows "move_test g i j \<longleftrightarrow>
         is_move_from_legal (stacks g ! j) \<and>
         is_move_to_legal (stacks g ! i) [run_bottom (stacks g ! j)] = Inr True"
proof (cases "is_move_from_legal (stacks g ! j)")
  case False
  then show ?thesis by (simp add: move_test_def)
next
  case True
  then obtain cs where cs: "stack (stacks g ! j) = Cards cs" "cs \<noteq> []"
    using assms
    by (cases "stack (stacks g ! j)")
      (auto simp: is_move_from_legal_def well_formed_stack_def truthy_def split: if_splits)
  from top_run_nonempty [OF cs(2)] obtain run where
    run: "which_cards_moving cs = Inr run" "run \<noteq> []" "top_run cs = run"
    by blast
  then obtain c rest where "run = c # rest"
    by (cases run) auto
  then show ?thesis
    using True cs run by (simp add: move_test_def run_bottom_eq)
qed

lemma inner_fold:
  "fold (inner_step g i) js acc =
   acc @ map (\<lambda>j. (j, i))
     (filter (\<lambda>j. j \<noteq> i \<and> \<not> (move_history g \<noteq> [] \<and> last (move_history g) = (i, j)) \<and>
                  move_test g i j) js)"
  by (induction js arbitrary: acc) (simp_all add: inner_step_def)

lemma outer_fold: "fold (outer_step g) is acc = acc @ concat (map (moves_to g) is)"
  by (induction "is" arbitrary: acc) (simp_all add: outer_step_def inner_fold moves_to_def)

lemma enumerate_moves_concat:
  "enumerate_moves g = concat (map (moves_to g) [0 ..< length (stacks g)])"
  by (simp add: enumerate_moves_def outer_fold)

lemma moves_to_set:
  assumes "well_formed g"
  shows "set (moves_to g i) =
         {(src, dst). dst = i \<and> src < length (stacks g) \<and> move_allowed g src dst}"
proof -
  have wf: "well_formed_stack (stacks g ! j)" if "j < length (stacks g)" for j
    using assms that by (simp add: well_formed_def list_all_length)
  show ?thesis
    using wf by (auto simp: moves_to_def move_allowed_def move_test_allowed)
qed

lemma enumerate_moves_set:
  assumes "well_formed g"
  shows "set (enumerate_moves g) =
         {(src, dst). src < length (stacks g) \<and> dst < length (stacks g) \<and>
                      move_allowed g src dst}"
  by (auto simp: enumerate_moves_concat moves_to_set [OF assms])

lemma sorted_wrt_concat_map:
  assumes "sorted_wrt (<) (is :: nat list)"
    and "\<And>i. sorted_wrt R (F i)"
    and "\<And>i i' x y. i < i' \<Longrightarrow> x \<in> set (F i) \<Longrightarrow> y \<in> set (F i') \<Longrightarrow> R x y"
  shows "sorted_wrt R (concat (map F is))"
  using assms(1)
proof (induction "is")
  case Nil
  then show ?case by simp
next
  case (Cons i "is")
  then show ?case
    using assms(2,3) by (auto simp: sorted_wrt_append)
qed

lemma moves_to_sorted: "sorted_wrt move_before (moves_to g i)"
proof -
  have "sorted_wrt (<) (filter P [0 ..< n])" for P and n :: nat
    by (rule sorted_wrt_filter) simp
  then show ?thesis
    by (simp add: moves_to_def sorted_wrt_map move_before_def)
qed

lemma moves_to_snd: "m \<in> set (moves_to g i) \<Longrightarrow> snd m = i"
  by (auto simp: moves_to_def split: if_splits)

lemma enumerate_moves_sorted: "sorted_wrt move_before (enumerate_moves g)"
  unfolding enumerate_moves_concat
proof (rule sorted_wrt_concat_map)
  show "sorted_wrt (<) [0 ..< length (stacks g)]" by simp
  show "sorted_wrt move_before (moves_to g i)" for i by (rule moves_to_sorted)
  show "move_before x y" if "i < i'" "x \<in> set (moves_to g i)" "y \<in> set (moves_to g i')"
    for i i' x y
    using that moves_to_snd [of x g i] moves_to_snd [of y g i'] by (simp add: move_before_def)
qed

lemma resolve_move_from_count:
  assumes "resolve_move_from s m = Inr (run, s')"
  shows "card_count s = card_count s' + length run"
proof -
  from assms obtain cs where cs: "stack s = Cards cs" "cs \<noteq> []"
    by (cases "stack s")
      (auto simp: resolve_move_from_def is_move_from_legal_def truthy_def split: if_splits)
  show ?thesis
  proof (cases "m = 0")
    case True
    from top_run_nonempty [OF cs(2)] obtain r where
      r: "which_cards_moving cs = Inr r" "top_run cs = r"
      by blast
    have "length r \<le> length cs"
      using top_run_length [OF cs(2)] r by simp
    then show ?thesis
      using assms cs True r
      by (auto simp: resolve_move_from_def Let_def card_count_def split: if_splits)
  next
    case False
    then show ?thesis
      using assms cs
      by (auto simp: resolve_move_from_def Let_def card_count_def split: if_splits)
  qed
qed

lemma resolve_move_to_count:
  assumes "resolve_move_to s run = Inr s'"
  shows "card_count s' = card_count s + length run"
  using assms
  by (cases "stack s")
    (auto simp: resolve_move_to_def Let_def card_count_def split: sum.splits if_splits)

lemma sum_list_map_update:
  fixes f :: "'a \<Rightarrow> nat"
  assumes "k < length xs"
  shows "sum_list (map f (xs[k := x])) + f (xs ! k) = sum_list (map f xs) + f x"
  using assms
proof (induction xs arbitrary: k)
  case Nil
  then show ?case by simp
next
  case (Cons a xs)
  then show ?case
    by (cases k) (auto simp: algebra_simps)
qed

lemma make_child_total:
  assumes "make_child g (i, j) = Inr g'"
  shows "total_cards g' = total_cards g"
proof -
  from assms have ij: "i < length (stacks g)" "j < length (stacks g)"
    by (auto simp: make_child_def split: if_splits)
  let ?m = "if card_type (stacks g ! j) = TFreecell then 1 else 0 :: nat"
  from assms ij obtain run origin where
    f: "resolve_move_from (stacks g ! i) ?m = Inr (run, origin)"
    by (auto simp: make_child_def split: sum.splits)
  let ?s1 = "(stacks g)[i := origin]"
  from assms ij f obtain destination where
    t: "resolve_move_to (?s1 ! j) run = Inr destination"
    by (auto simp: make_child_def Let_def split: sum.splits)
  from assms ij f t have g': "stacks g' = ?s1[j := destination]"
    by (auto simp: make_child_def Let_def get_score_fields)
  have 1: "sum_list (map card_count ?s1) + card_count (stacks g ! i)
           = sum_list (map card_count (stacks g)) + card_count origin"
    by (rule sum_list_map_update [OF ij(1)])
  have 2: "sum_list (map card_count (?s1[j := destination])) + card_count (?s1 ! j)
           = sum_list (map card_count ?s1) + card_count destination"
    by (rule sum_list_map_update) (simp add: ij)
  from resolve_move_from_count [OF f] resolve_move_to_count [OF t] 1 2
  show ?thesis
    by (simp add: total_cards_def g')
qed

lemma resolve_move_to_legal:
  assumes "is_move_to_legal s run = Inr True"
  shows "\<exists>s'. resolve_move_to s run = Inr s'"
proof (cases "stack s")
  case (Cards cs)
  then show ?thesis
    using assms by (simp add: resolve_move_to_def Let_def)
next
  case X
  then show ?thesis
    using assms
    by (cases "card_type s")
      (auto simp: is_move_to_legal_def truthy_def split: if_splits list.splits)
qed

lemma is_move_to_legal_stack_hd:
  assumes "card_type s = TStack" and "run \<noteq> []"
  shows "is_move_to_legal s run = is_move_to_legal s [hd run]"
  using assms by (cases run) (auto simp: is_move_to_legal_def)

lemma is_move_to_legal_freecell_single:
  assumes "card_type s = TFreecell" and "is_move_to_legal s [c] = Inr True"
  shows "is_move_to_legal s [c'] = Inr True"
  using assms by (auto simp: is_move_to_legal_def split: if_splits)

lemma enumerated_move_succeeds:
  assumes wf: "well_formed g" and mem: "(src, dst) \<in> set (enumerate_moves g)"
  shows "\<exists>g'. make_child g (src, dst) = Inr g'"
proof -
  from mem enumerate_moves_set [OF wf]
  have n: "src < length (stacks g)" "dst < length (stacks g)" and a: "move_allowed g src dst"
    by auto
  let ?o = "stacks g ! src" and ?d = "stacks g ! dst"
  from a have ne: "src \<noteq> dst" and fl: "is_move_from_legal ?o"
    and tl: "is_move_to_legal ?d [run_bottom ?o] = Inr True"
    by (simp_all add: move_allowed_def)
  have "well_formed_stack ?o"
    using wf n by (simp add: well_formed_def list_all_length)
  with fl obtain cs where cs: "stack ?o = Cards cs" "cs \<noteq> []"
    by (cases "stack ?o")
      (auto simp: is_move_from_legal_def well_formed_stack_def truthy_def split: if_splits)
  from top_run_nonempty [OF cs(2)] obtain r where
    r: "which_cards_moving cs = Inr r" "r \<noteq> []" "top_run cs = r"
    by blast
  have rb: "run_bottom ?o = hd r"
    using cs r by (simp add: run_bottom_eq)
  let ?m = "if card_type ?d = TFreecell then 1 else 0 :: nat"
  obtain run origin where
    f: "resolve_move_from ?o ?m = Inr (run, origin)" and run: "run \<noteq> []"
    and hd: "card_type ?d = TStack \<Longrightarrow> hd run = hd r"
    and single: "card_type ?d = TFreecell \<Longrightarrow> \<exists>c. run = [c]"
  proof (cases "card_type ?d")
    case TStack
    then show ?thesis
      using that fl cs r by (simp add: resolve_move_from_def Let_def)
  next
    case TFreecell
    have "drop (length cs - Suc 0) cs = [last cs]"
      using cs(2) by (cases cs rule: rev_cases) simp_all
    then show ?thesis
      using that TFreecell fl cs by (simp add: resolve_move_from_def Let_def)
  qed
  have "is_move_to_legal ?d run = Inr True"
  proof (cases "card_type ?d")
    case TStack
    then show ?thesis
      using tl rb hd is_move_to_legal_stack_hd [OF TStack run] by simp
  next
    case TFreecell
    from single [OF TFreecell] obtain c where "run = [c]"
      by blast
    then show ?thesis
      using is_move_to_legal_freecell_single [OF TFreecell tl] by simp
  qed
  then have "is_move_to_legal ((stacks g)[src := origin] ! dst) run = Inr True"
    using ne n by simp
  from resolve_move_to_legal [OF this] obtain destination where
    "resolve_move_to ((stacks g)[src := origin] ! dst) run = Inr destination"
    by blast
  then show ?thesis
    using n f by (simp add: make_child_def Let_def)
qed

lemma collapse_condition:
  "(length new = 4 \<and> new = replicate 4 (new ! 0) \<and> new ! 0 \<in> set face_cards) \<longleftrightarrow>
   four_of_a_face new"
proof
  assume "length new = 4 \<and> new = replicate 4 (new ! 0) \<and> new ! 0 \<in> set face_cards"
  then show "four_of_a_face new"
    unfolding four_of_a_face_def by blast
next
  assume "four_of_a_face new"
  then obtain c where c: "c \<in> set face_cards" "new = replicate 4 c"
    unfolding four_of_a_face_def by blast
  then have "new ! 0 = c" "length new = 4"
    by simp_all
  then show "length new = 4 \<and> new = replicate 4 (new ! 0) \<and> new ! 0 \<in> set face_cards"
    using c by simp
qed

lemma resolve_move_to_fails_iff:
  "isl (resolve_move_to s run) \<longleftrightarrow> is_move_to_legal s run \<noteq> Inr True"
proof (cases "is_move_to_legal s run")
  case (Inl e)
  then show ?thesis by (simp add: resolve_move_to_def)
next
  case (Inr legal)
  show ?thesis
  proof (cases legal)
    case True
    with Inr resolve_move_to_legal [of s run] show ?thesis by auto
  next
    case False
    with Inr show ?thesis by (simp add: resolve_move_to_def)
  qed
qed

lemma is_move_to_legal_decides:
  assumes "run \<noteq> []" and "stack s = X \<longrightarrow> locked s"
  shows "is_move_to_legal s run = Inr False \<or> is_move_to_legal s run = Inr True"
  using assms
  by (cases run; cases "stack s") (auto simp: is_move_to_legal_def)

lemma resolve_move_to_result:
  assumes "is_move_to_legal s run = Inr True"
  shows "\<exists>cs. stack s = Cards cs \<and>
           resolve_move_to s run =
             Inr (if four_of_a_face (cs @ run) then collapse s (hd (cs @ run))
                  else s\<lparr>stack := Cards (cs @ run)\<rparr>)"
proof (cases "stack s")
  case (Cards cs)
  have "hd (cs @ run) = (cs @ run) ! 0" if "four_of_a_face (cs @ run)"
    using that by (auto simp: four_of_a_face_def hd_conv_nth)
  then show ?thesis
    using assms Cards collapse_condition [of "cs @ run"]
    by (auto simp: resolve_move_to_def Let_def collapse_def)
next
  case X
  then show ?thesis
    using assms
    by (cases "card_type s")
      (auto simp: is_move_to_legal_def truthy_def split: if_splits list.splits)
qed

lemma collapsed_stays:
  assumes "stack s = X" and "locked s"
  shows "foldl apply_op s ops = s"
proof (induction ops)
  case Nil
  then show ?case by simp
next
  case (Cons op ops)
  have "apply_op s op = s"
    using assms
    by (cases op)
      (simp_all add: resolve_move_to_def is_move_to_legal_def resolve_move_from_def
        is_move_from_legal_def init_cards_def truthy_def)
  then show ?case
    using Cons by simp
qed

lemma three_faces_facts:
  "is_move_to_legal three_faces [(CHR ''H'', CHR ''H'')] = Inr True"
  "stack three_faces = Cards [(CHR ''H'', CHR ''H''), (CHR ''H'', CHR ''H''), (CHR ''H'', CHR ''H'')]"
  "collapse three_faces (CHR ''H'', CHR ''H'') = collapsed_faces"
  "stack collapsed_faces = X" "locked collapsed_faces"
  "is_move_to_legal collapsed_faces [(CHR ''H'', CHR ''H'')] = Inr False"
  by code_simp+

lemma four_faces: "four_of_a_face (replicate 4 (CHR ''H'', CHR ''H''))"
  by (simp add: four_of_a_face_def face_cards_def)

lemma well_formed_new_Game: "well_formed (new_Game n f md)"
  by (auto simp: well_formed_def new_Game_def list_all_iff well_formed_stack_def new_Stack_def)

lemma decode_stack_well_formed:
  assumes "decode_stack tok = Some (Inr s)"
  shows "well_formed_stack s"
  using assms
  by (auto simp: decode_stack_def Let_def well_formed_stack_def new_Stack_def
      split: if_splits sum.splits option.splits)

lemma decode_stacks_well_formed:
  assumes "decode_stacks toks = Some (Inr ss)"
  shows "list_all well_formed_stack ss"
  using assms
proof (induction toks arbitrary: ss)
  case Nil
  then show ?case by simp
next
  case (Cons tok toks)
  then show ?case
    by (auto split: sum.splits option.splits dest: decode_stack_well_formed)
qed

lemma exact_setup_well_formed:
  assumes "exact_setup g0 t = Some (Inr g)"
  shows "well_formed g"
  using assms
  by (auto simp: exact_setup_def Let_def well_formed_def split: sum.splits option.splits
      dest: decode_stacks_well_formed)

lemma resolve_move_from_well_formed:
  assumes "resolve_move_from s m = Inr (run, s')"
  shows "well_formed_stack s'"
  using assms
  by (cases "stack s")
    (auto simp: resolve_move_from_def Let_def well_formed_stack_def split: if_splits sum.splits)

lemma resolve_move_to_well_formed:
  assumes "resolve_move_to s run = Inr s'"
  shows "well_formed_stack s'"
  using assms
  by (cases "stack s")
    (auto simp: resolve_move_to_def Let_def well_formed_stack_def split: if_splits sum.splits)

lemma list_all_update:
  assumes "list_all P xs" and "P x"
  shows "list_all P (xs[k := x])"
  using assms by (auto simp: list_all_iff dest: set_update_subset_insert [THEN subsetD])

lemma make_child_well_formed:
  assumes "well_formed g" and "make_child g (i, j) = Inr g'"
  shows "well_formed g'"
proof -
  from assms(2) have ij: "i < length (stacks g)" "j < length (stacks g)"
    by (auto simp: make_child_def split: if_splits)
  let ?m = "if card_type (stacks g ! j) = TFreecell then 1 else 0 :: nat"
  from assms(2) ij obtain run origin where
    f: "resolve_move_from (stacks g ! i) ?m = Inr (run, origin)"
    by (auto simp: make_child_def split: sum.splits)
  let ?s1 = "(stacks g)[i := origin]"
  from assms(2) ij f obtain destination where
    t: "resolve_move_to (?s1 ! j) run = Inr destination"
    by (auto simp: make_child_def Let_def split: sum.splits)
  from assms(2) ij f t have g': "stacks g' = ?s1[j := destination]"
    by (auto simp: make_child_def Let_def get_score_fields)
  show ?thesis
    using assms(1) resolve_move_from_well_formed [OF f] resolve_move_to_well_formed [OF t]
    by (simp add: well_formed_def g' list_all_update)
qed

lemma collapsing_game_facts:
  "well_formed collapsing_game"
  "(1, 0) \<in> set (enumerate_moves collapsing_game)"
  "make_child collapsing_game (1, 0) = Inr collapsed_child"
  "total_cards collapsing_game = 4"
  by code_simp+

lemma order_game_facts:
  "well_formed order_game" "move_allowed order_game 0 1"
  "length (stacks order_game) = 3"
  "enumerate_moves order_game = [(0, 1)]"
  "run_bottom (stacks order_game ! 0) = (CHR ''9'', CHR ''B'')"
  by code_simp+

lemma example_game_facts:
  "well_formed example_game" "move_allowed example_game 0 2"
  "length (stacks example_game) = 3"
  "exact_setup fresh_game ''S9B8R7B6R/S/F/'' = Some (Inr example_game)"
  "enumerate_moves example_game = [(0, 1), (0, 2)]"
  by code_simp+

lemma stroke_le_iff:
  assumes "above_stroke a" and "above_stroke b"
  shows "a @ ''/'' \<le> b @ ''/'' \<longleftrightarrow> a \<le> b"
  using assms
proof (induction a arbitrary: b)
  case Nil
  then show ?case
    by (cases b) (auto simp: above_stroke_def)
next
  case (Cons x xs)
  show ?case
  proof (cases b)
    case Nil
    then show ?thesis
      using Cons.prems by (auto simp: above_stroke_def)
  next
    case (Cons y ys)
    have "xs @ ''/'' \<le> ys @ ''/'' \<longleftrightarrow> xs \<le> ys"
      using Cons.prems Cons by (intro Cons.IH) (simp_all add: above_stroke_def)
    then show ?thesis
      using Cons by simp
  qed
qed

lemma sort_chunks:
  assumes "list_all above_stroke hs"
  shows "sort (map (\<lambda>h. h @ ''/'') hs) = map (\<lambda>h. h @ ''/'') (sort hs)"
proof (rule properties_for_sort)
  show "mset (map (\<lambda>h. h @ ''/'') (sort hs)) = mset (map (\<lambda>h. h @ ''/'') hs)"
    by simp
  have "sorted_wrt (\<lambda>a b. a @ ''/'' \<le> b @ ''/'') (sort hs)"
  proof (rule sorted_wrt_mono_rel [of _ "(\<le>)"])
    show "sorted_wrt (\<le>) (sort hs)"
      by simp
    fix a b
    assume "a \<in> set (sort hs)" "b \<in> set (sort hs)" "a \<le> b"
    then show "a @ ''/'' \<le> b @ ''/''"
      using assms stroke_le_iff [of a b] by (simp add: list_all_iff)
  qed
  then show "sorted (map (\<lambda>h. h @ ''/'') (sort hs))"
    by (simp add: sorted_wrt_map)
qed

lemma game_hash_sorted_hashes:
  assumes "list_all (\<lambda>s. above_stroke (stack_hash s)) (stacks g)"
  shows "game_hash g = concat (map (\<lambda>h. h @ ''/'') (sort (map stack_hash (stacks g))))"
proof -
  have "list_all above_stroke (map stack_hash (stacks g))"
    using assms by (simp add: list_all_iff)
  from sort_chunks [OF this] show ?thesis
    by (simp add: game_hash_def comp_def)
qed

lemma valid_card_above_stroke:
  assumes "valid_card c"
  shows "above_stroke (str_card c)"
  using assms unfolding valid_card_cases
  by (elim insertE emptyE; simp add: above_stroke_def str_card_def less_char_def)

lemma cards_hash_above_stroke:
  assumes "stack s = Cards cs" and "list_all valid_card cs"
  shows "above_stroke (stack_hash s)"
proof -
  have "above_stroke (concat (map str_card cs))"
    using assms(2) valid_card_above_stroke
    by (induction cs) (auto simp: above_stroke_def)
  then show ?thesis
    using assms(1)
    by (cases "card_type s") (simp_all add: stack_hash_def above_stroke_def less_char_def)
qed

lemma ab_game_above_stroke: "list_all (\<lambda>s. above_stroke (stack_hash s)) (stacks ab_game)"
  by code_simp

lemma all_locked_no_moves:
  assumes "list_all locked (stacks g)"
  shows "enumerate_moves g = []"
proof -
  have "moves_to g i = []" if "i < length (stacks g)" for i
    using assms that by (simp add: moves_to_def list_all_length)
  then show ?thesis
    by (simp add: enumerate_moves_concat)
qed

lemma fully_collapsed_no_moves:
  assumes "well_formed g" and "fully_collapsed g"
  shows "enumerate_moves g = []"
proof (rule all_locked_no_moves)
  show "list_all locked (stacks g)"
    using assms by (auto simp: well_formed_def fully_collapsed_def well_formed_stack_def list_all_iff)
qed

lemma fully_collapsed_complete:
  assumes "fully_collapsed g"
  shows "game_is_complete g \<longleftrightarrow> length (stacks g) = 8"
proof -
  have "sum_list (map (\<lambda>s. if stack_is_complete s then (1::nat) else 0) ss) = length ss"
    if "list_all (\<lambda>s. stack s = X) ss" for ss
    using that by (induction ss) (simp_all add: stack_is_complete_def)
  then show ?thesis
    using assms by (simp add: game_is_complete_def fully_collapsed_def)
qed

lemma search_root_beyond_cutoff:
  assumes "depth g = 0" and "max_depth g < 0" and "\<not> game_is_complete g"
  shows "search g pl [g] [] a b = Some (Inr [])"
proof -
  obtain g1 a1 b1 where r: "report pl g a b = (g1, a1, b1)"
    by (cases "report pl g a b") auto
  from report_fields [OF r]
  have f: "stacks g1 = stacks g" "depth g1 = depth g" "max_depth g1 = max_depth g"
    by simp_all
  have c: "\<not> game_is_complete g1"
    using assms(3) game_is_complete_cong [OF f(1)] by simp
  have s: "solve g1 = Inr None"
    using assms(1,2) f by (simp add: solve_def)
  have "search g pl [g] [] a b = search g pl [] [game_hash g1] a1 b1"
    by (subst search.simps) (simp add: r c s)
  also have "\<dots> = Some (Inr [])"
    by (subst search.simps) simp
  finally show ?thesis .
qed

lemma collapsed_texts_decode:
  "exact_setup fresh_game eight_text = Some (Inr (collapsed_stacks 8))"
  "exact_setup fresh_game nine_text = Some (Inr (collapsed_stacks 9))"
  by code_simp+

lemma collapsed_stacks_facts:
  "fully_collapsed (collapsed_stacks 8)" "game_is_complete (collapsed_stacks 8)"
  "fully_collapsed (collapsed_stacks 9)" "\<not> game_is_complete (collapsed_stacks 9)"
  by code_simp+

subsection \<open>The compatibility rule\<close>

text \<open>
  C2. For two cards of the deck, \<^verbatim>\<open>compatible(top, bottom)\<close> holds exactly when both are
  face cards of the same suit, or both are number cards, the bottom one is worth one
  less than the top one and their colours differ. A face card and a number card are
  never compatible; a compatible pair of number cards is not compatible the other way
  round; two face cards of one suit are compatible both ways round.
\<close>

theorem C2_compatible:
  assumes "valid_card top_card" and "valid_card bottom_card"
  shows "(compatible top_card bottom_card \<longleftrightarrow> compatible_spec top_card bottom_card) \<and>
         ((is_face top_card \<and> is_numeric bottom_card) \<or>
          (is_numeric top_card \<and> is_face bottom_card)
            \<longrightarrow> \<not> compatible top_card bottom_card) \<and>
         (is_numeric top_card \<and> is_numeric bottom_card \<and> compatible top_card bottom_card
            \<longrightarrow> \<not> compatible bottom_card top_card) \<and>
         (is_face top_card \<and> is_face bottom_card \<and> snd top_card = snd bottom_card
            \<longrightarrow> compatible top_card bottom_card \<and> compatible bottom_card top_card)"
  using assms unfolding valid_card_cases
  by (elim insertE emptyE; simp add: compatible_def compatible_spec_def is_face_def
      is_numeric_def card_value_def colour_def face_values_def num_values_def int_of_digit_def)

theorem C2_compatible_witness:
  "valid_card (CHR ''9'', CHR ''B'') \<and> valid_card (CHR ''8'', CHR ''R'') \<and>
   compatible (CHR ''9'', CHR ''B'') (CHR ''8'', CHR ''R'') \<and>
   \<not> compatible (CHR ''8'', CHR ''R'') (CHR ''9'', CHR ''B'')"
  using C2_compatible [OF valid_9B valid_8R] valid_9B valid_8R
  by (simp add: compatible_spec_def is_numeric_def is_face_def card_value_def colour_def
      num_values_def face_values_def int_of_digit_def)

subsection \<open>Dead games\<close>

text \<open>
  C8, as the code has it. \<^verbatim>\<open>is_dead\<close> is true exactly when \<^verbatim>\<open>enumerate_moves\<close> returns
  the empty list; the depth of the game plays no part in it (\<^verbatim>\<open>solve\<close>, the caller,
  tests the depth next to it).
\<close>

theorem C8_is_dead:
  "(is_dead g \<longleftrightarrow> enumerate_moves g = []) \<and> is_dead (g\<lparr>depth := d\<rparr>) = is_dead g"
  by (simp add: is_dead_def enumerate_moves_cong [of "g\<lparr>depth := d\<rparr>" g])

text \<open>
  The game before the deal has depth 0 and no move, and \<^verbatim>\<open>is_dead\<close> is true of it: not
  what \<^emph>\<open>empty and depth > 0\<close> gives.
\<close>

theorem C8_counterexample:
  "is_dead fresh_game \<and> \<not> (enumerate_moves fresh_game = [] \<and> depth fresh_game > 0)"
  by code_simp

subsection \<open>A fully collapsed game as input\<close>

text \<open>
  C9, as the code has it. When the text read by \<^verbatim>\<open>exact_setup\<close> into a new game gives a
  fully collapsed game, that game is complete exactly when it has eight stacks. When it
  is complete, \<^verbatim>\<open>global_solve\<close> does not return a list of moves: \<^verbatim>\<open>play_game\<close>, called
  with the empty history, raises \<^verbatim>\<open>"No moves for successful game solve?"\<close>. When it is
  not, \<^verbatim>\<open>solve\<close> finds a root without moves and \<^verbatim>\<open>global_solve\<close> raises
  \<^verbatim>\<open>"Impossible to solve game"\<close>, unless the depth cutoff is below zero, where it returns
  the empty list of a game that cannot be solved.
\<close>

theorem C9_fully_collapsed_input:
  assumes "exact_setup (new_Game n f md) t = Some (Inr g)" and "fully_collapsed g"
  shows "(game_is_complete g \<longleftrightarrow> length (stacks g) = 8) \<and>
         (game_is_complete g \<longrightarrow> global_solve g pl = Some (Inl NoMoves)) \<and>
         (\<not> game_is_complete g \<and> 0 \<le> md \<longrightarrow>
            global_solve g pl = Some (Inl ImpossibleToSolve)) \<and>
         (\<not> game_is_complete g \<and> md < 0 \<longrightarrow> global_solve g pl = Some (Inr []))"
proof -
  from exact_setup_fields [OF assms(1)]
  have root: "depth g = 0" "move_history g = []" "max_depth g = md"
    by (simp_all add: new_Game_def)
  have moves: "enumerate_moves g = []"
    using fully_collapsed_no_moves [OF exact_setup_well_formed [OF assms(1)] assms(2)] .
  have "game_is_complete g \<Longrightarrow> global_solve g pl = Some (Inl NoMoves)"
    using root search_complete_root [of g pl 0 0] by (simp add: global_solve_def)
  moreover have "global_solve g pl = Some (Inl ImpossibleToSolve)"
    if "\<not> game_is_complete g" "0 \<le> md"
    using that root moves search_root_no_moves [of g pl 0 0] by (simp add: global_solve_def)
  moreover have "global_solve g pl = Some (Inr [])" if "\<not> game_is_complete g" "md < 0"
    using that root search_root_beyond_cutoff [of g pl 0 0] by (simp add: global_solve_def)
  ultimately show ?thesis
    using fully_collapsed_complete [OF assms(2)] by blast
qed

theorem C9_fully_collapsed_input_witness:
  "exact_setup (new_Game 9 1 100) eight_text = Some (Inr (collapsed_stacks 8)) \<and>
   fully_collapsed (collapsed_stacks 8) \<and> game_is_complete (collapsed_stacks 8) \<and>
   global_solve (collapsed_stacks 8) (- 1) = Some (Inl NoMoves) \<and>
   exact_setup (new_Game 9 1 100) nine_text = Some (Inr (collapsed_stacks 9)) \<and>
   fully_collapsed (collapsed_stacks 9) \<and> \<not> game_is_complete (collapsed_stacks 9) \<and>
   global_solve (collapsed_stacks 9) (- 1) = Some (Inl ImpossibleToSolve)"
  using C9_fully_collapsed_input [of 9 1 100 eight_text "collapsed_stacks 8" "- 1"]
    C9_fully_collapsed_input [of 9 1 100 nine_text "collapsed_stacks 9" "- 1"]
    collapsed_texts_decode collapsed_stacks_facts
  by (simp add: fresh_game_def)

text \<open>
  The text of nine collapsed stacks is read into a fully collapsed game that is not
  complete. The text of eight collapsed stacks is read into a fully collapsed game that
  is complete, and \<^verbatim>\<open>global_solve\<close> raises on it and does not return the empty list.
\<close>

theorem C9_counterexample:
  "exact_setup fresh_game nine_text = Some (Inr (collapsed_stacks 9)) \<and>
   fully_collapsed (collapsed_stacks 9) \<and> \<not> game_is_complete (collapsed_stacks 9) \<and>
   exact_setup fresh_game eight_text = Some (Inr (collapsed_stacks 8)) \<and>
   fully_collapsed (collapsed_stacks 8) \<and> game_is_complete (collapsed_stacks 8) \<and>
   global_solve (collapsed_stacks 8) (- 1) = Some (Inl NoMoves) \<and>
   global_solve (collapsed_stacks 8) (- 1) \<noteq> Some (Inr [])"
proof -
  have "move_history (collapsed_stacks 8) = []" "depth (collapsed_stacks 8) = 0"
    by (simp_all add: collapsed_stacks_def)
  then have "global_solve (collapsed_stacks 8) (- 1) = Some (Inl NoMoves)"
    using search_complete_root [of "collapsed_stacks 8" "- 1" 0 0] collapsed_stacks_facts
    by (simp add: global_solve_def)
  then show ?thesis
    using collapsed_texts_decode collapsed_stacks_facts by simp
qed

subsection \<open>A root without moves\<close>

text \<open>
  C10, as the code has it. For a well-formed root game (depth 0) whose depth does not
  exceed the cutoff (\<^verbatim>\<open>max_depth\<close> is not negative), that is not complete and has no legal move,
  \<^verbatim>\<open>solve\<close> raises \<^verbatim>\<open>"Impossible to solve game"\<close>, and so does \<^verbatim>\<open>global_solve\<close>, which
  does not reach its empty list.
\<close>

theorem C10_root_without_moves:
  assumes "well_formed g"
    and "depth g = 0" and "0 \<le> max_depth g" and "\<not> game_is_complete g"
    and "enumerate_moves g = []"
  shows "solve g = Inl ImpossibleToSolve \<and> global_solve g pl = Some (Inl ImpossibleToSolve)"
  using solve_root_no_moves [OF assms(2-5)] search_root_no_moves [OF assms(2-5)] assms(2)
  by (simp add: global_solve_def)

theorem C10_root_without_moves_witness:
  "well_formed fresh_game \<and> depth fresh_game = 0 \<and> 0 \<le> max_depth fresh_game \<and>
   \<not> game_is_complete fresh_game \<and>
   enumerate_moves fresh_game = [] \<and> solve fresh_game = Inl ImpossibleToSolve \<and>
   global_solve fresh_game 0 = Some (Inl ImpossibleToSolve)"
  using C10_root_without_moves [OF fresh_game_facts, of 0] fresh_game_facts by simp

text \<open>
  With the cutoff below zero the depth test of \<^verbatim>\<open>solve\<close> comes first: the root without
  moves gives \<^verbatim>\<open>None\<close>, and \<^verbatim>\<open>global_solve\<close> returns the empty list.
\<close>

theorem C10_counterexample:
  "depth shallow_game = 0 \<and> \<not> game_is_complete shallow_game \<and>
   enumerate_moves shallow_game = [] \<and> solve shallow_game = Inr None \<and>
   global_solve shallow_game 0 = Some (Inr [])"
proof -
  have "search shallow_game 0 [shallow_game] [] 0 0 =
        search shallow_game 0 [] [game_hash shallow_game] 0 0"
    by (subst search.simps) (simp add: shallow_game_facts)
  also have "\<dots> = Some (Inr [])"
    by (subst search.simps) simp
  finally show ?thesis
    using shallow_game_facts by (simp add: global_solve_def)
qed

subsection \<open>The hash of a game\<close>

text \<open>
  C1. Two games whose stacks are the same up to their order from left to right have the
  same hash. The hash is the concatenation of the chunks of the stacks (the hash of the
  stack, closed by a stroke) in sorted order; when the symbols of the stack hashes all
  come after the stroke, that is the stack hashes in sorted order, each closed by a
  stroke.
\<close>

theorem C1_hash_order_independent:
  assumes "mset (stacks g1) = mset (stacks g2)"
  shows "game_hash g1 = game_hash g2 \<and>
         (\<exists>chunks. sorted chunks \<and>
            mset chunks = image_mset (\<lambda>s. stack_hash s @ ''/'') (mset (stacks g1)) \<and>
            game_hash g1 = concat chunks) \<and>
         (list_all (\<lambda>s. above_stroke (stack_hash s)) (stacks g1) \<longrightarrow>
            game_hash g1 = concat (map (\<lambda>h. h @ ''/'') (sort (map stack_hash (stacks g1)))))"
proof -
  let ?f = "\<lambda>s. stack_hash s @ ''/''"
  have "mset (map ?f (stacks g1)) = mset (map ?f (stacks g2))"
    using assms by (metis mset_map)
  then have "sort (map ?f (stacks g1)) = sort (map ?f (stacks g2))"
    by (rule sort_mset_eq)
  then have a: "game_hash g1 = game_hash g2"
    by (simp add: game_hash_def)
  have "sorted (sort (map ?f (stacks g1)))"
    by simp
  moreover have "mset (sort (map ?f (stacks g1))) = image_mset ?f (mset (stacks g1))"
    by simp
  moreover have "game_hash g1 = concat (sort (map ?f (stacks g1)))"
    by (simp add: game_hash_def)
  ultimately have b: "\<exists>chunks. sorted chunks \<and>
      mset chunks = image_mset ?f (mset (stacks g1)) \<and> game_hash g1 = concat chunks"
    by blast
  show ?thesis
    using a b game_hash_sorted_hashes [of g1] by blast
qed

theorem C1_hash_order_independent_witness:
  "mset (stacks ab_game) = mset (stacks ba_game) \<and> stacks ab_game \<noteq> stacks ba_game \<and>
   list_all (\<lambda>s. above_stroke (stack_hash s)) (stacks ab_game) \<and>
   game_hash ab_game = ''F/S9B8R/'' \<and> game_hash ba_game = ''F/S9B8R/''"
proof -
  have "game_hash ab_game = ''F/S9B8R/''"
    by code_simp
  moreover have "stacks ab_game \<noteq> stacks ba_game"
    by (simp add: ab_game_def ba_game_def new_Stack_def)
  ultimately show ?thesis
    using C1_hash_order_independent [OF ab_ba_mset] ab_ba_mset ab_game_above_stroke by simp
qed

subsection \<open>The score\<close>

text \<open>
  C6. The score that \<^verbatim>\<open>get_score\<close> computes (when asked to override, or when no score
  other than 0 is stored) and stores is the sum over the stacks of: 20 for a complete
  stack; 10 for an empty stack; 5 less the number of cards below the top run for a stack
  with cards that is not complete; 0 for a free cell that is not complete.
\<close>

theorem C6_score:
  "fst (get_score g True) = sum_list (map stack_score_spec (stacks g)) \<and>
   (score g = 0 \<longrightarrow> fst (get_score g False) = sum_list (map stack_score_spec (stacks g))) \<and>
   score (snd (get_score g True)) = sum_list (map stack_score_spec (stacks g))"
  by (simp add: get_score_def Let_def fold_score_step)

theorem C6_score_witness:
  "score trapped_game = 0 \<and> fst (get_score trapped_game False) = 3"
  using C6_score [of trapped_game] trapped_game_score by simp

subsection \<open>Appending a run\<close>

text \<open>
  C3. \<^verbatim>\<open>resolve_move_to\<close> raises exactly when \<^verbatim>\<open>is_move_to_legal\<close> does not return true
  for the run, with \<^verbatim>\<open>"Trying to force illegal move"\<close> when it returns false; for a run
  that is not empty, on a stack that is locked if it holds the marker, the test returns
  true or false. When it returns true the run is appended, and the stack collapses
  exactly when its whole content is then four copies of one face card: the collapse
  puts the marker in place of the content, remembers the card and sets the lock.
  Whatever is called on a collapsed stack afterwards leaves it as it is.
\<close>

theorem C3_resolve_move_to:
  "(isl (resolve_move_to s run) \<longleftrightarrow> is_move_to_legal s run \<noteq> Inr True) \<and>
   (is_move_to_legal s run = Inr False \<longrightarrow> resolve_move_to s run = Inl IllegalMove) \<and>
   (run \<noteq> [] \<and> (stack s = X \<longrightarrow> locked s) \<longrightarrow>
      is_move_to_legal s run = Inr False \<or> is_move_to_legal s run = Inr True) \<and>
   (is_move_to_legal s run = Inr True \<longrightarrow>
      (\<exists>cs. stack s = Cards cs \<and>
         resolve_move_to s run =
           Inr (if four_of_a_face (cs @ run) then collapse s (hd (cs @ run))
                else s\<lparr>stack := Cards (cs @ run)\<rparr>))) \<and>
   (stack s = X \<and> locked s \<longrightarrow> foldl apply_op s ops = s)"
  using resolve_move_to_fails_iff [of s run] is_move_to_legal_decides [of run s]
    resolve_move_to_result [of s run] collapsed_stays [of s ops]
  by (simp add: resolve_move_to_def)

theorem C3_resolve_move_to_witness:
  "is_move_to_legal three_faces [(CHR ''H'', CHR ''H'')] = Inr True \<and>
   resolve_move_to three_faces [(CHR ''H'', CHR ''H'')] = Inr collapsed_faces \<and>
   stack collapsed_faces = X \<and> locked collapsed_faces \<and>
   is_move_to_legal collapsed_faces [(CHR ''H'', CHR ''H'')] = Inr False \<and>
   resolve_move_to collapsed_faces [(CHR ''H'', CHR ''H'')] = Inl IllegalMove \<and>
   foldl apply_op collapsed_faces
     [MoveFrom 0, MoveTo [(CHR ''H'', CHR ''H'')], InitCards []] = collapsed_faces"
proof -
  have "resolve_move_to three_faces [(CHR ''H'', CHR ''H'')] = Inr collapsed_faces"
    using C3_resolve_move_to [of three_faces "[(CHR ''H'', CHR ''H'')]" "[]"]
      three_faces_facts four_faces
    by (simp add: numeral_eq_Suc)
  moreover have "foldl apply_op collapsed_faces
     [MoveFrom 0, MoveTo [(CHR ''H'', CHR ''H'')], InitCards []] = collapsed_faces"
    using C3_resolve_move_to [of collapsed_faces "[]"
        "[MoveFrom 0, MoveTo [(CHR ''H'', CHR ''H'')], InitCards []]"]
      three_faces_facts
    by blast
  moreover have "resolve_move_to collapsed_faces [(CHR ''H'', CHR ''H'')] = Inl IllegalMove"
    using C3_resolve_move_to [of collapsed_faces "[(CHR ''H'', CHR ''H'')]" "[]"]
      three_faces_facts
    by blast
  ultimately show ?thesis
    using three_faces_facts by simp
qed

subsection \<open>Conservation of cards\<close>

text \<open>
  C4. In a well-formed game every move listed by \<^verbatim>\<open>enumerate_moves\<close> can be carried out
  as \<^verbatim>\<open>solve\<close> does it (\<^verbatim>\<open>resolve_move_from\<close> on the origin, then \<^verbatim>\<open>resolve_move_to\<close> on the
  destination), and a move carried out leaves the number of cards of the game, four
  for each collapsed stack, as it was; the child is well-formed again.
\<close>

theorem C4_card_count_conserved:
  assumes "well_formed g"
  shows "((src, dst) \<in> set (enumerate_moves g) \<longrightarrow> (\<exists>g'. make_child g (src, dst) = Inr g')) \<and>
         (\<forall>g'. make_child g (src, dst) = Inr g' \<longrightarrow>
                total_cards g' = total_cards g \<and> well_formed g')"
  using enumerated_move_succeeds [OF assms] make_child_total make_child_well_formed [OF assms]
  by blast

theorem C4_card_count_conserved_witness:
  "well_formed collapsing_game \<and> (1, 0) \<in> set (enumerate_moves collapsing_game) \<and>
   make_child collapsing_game (1, 0) = Inr collapsed_child \<and>
   stack (stacks collapsed_child ! 0) = X \<and>
   total_cards collapsing_game = 4 \<and> total_cards collapsed_child = 4"
  using C4_card_count_conserved [OF collapsing_game_facts(1), of 1 0] collapsing_game_facts
  by (simp add: collapsed_child_def collapsed_faces_def)

subsection \<open>The list of moves\<close>

text \<open>
  C5. In a well-formed game \<^verbatim>\<open>enumerate_moves\<close> returns exactly the pairs of a source
  and a different destination such that the destination is not locked, the pair does
  not undo the last move of the history, the source can give and the destination
  takes the bottom card of the source's top run as a run of one. The top run is the
  maximal suffix of the source in which all neighbours are compatible, and it is what
  \<^verbatim>\<open>which_cards_moving\<close> returns for a source that can give. The list is in strictly
  increasing order by destination, then by source.
\<close>

theorem C5_enumerate_moves:
  assumes "well_formed g"
  shows "set (enumerate_moves g) =
           {(src, dst). src < length (stacks g) \<and> dst < length (stacks g) \<and>
                        move_allowed g src dst} \<and>
         sorted_wrt move_before (enumerate_moves g) \<and>
         (\<forall>src < length (stacks g). is_move_from_legal (stacks g ! src) \<longrightarrow>
            which_cards_moving (cards_of (stacks g ! src)) =
              Inr (maximal_run (cards_of (stacks g ! src))))"
proof -
  have "which_cards_moving (cards_of (stacks g ! src)) =
          Inr (maximal_run (cards_of (stacks g ! src)))"
    if "src < length (stacks g)" "is_move_from_legal (stacks g ! src)" for src
  proof -
    have "well_formed_stack (stacks g ! src)"
      using assms that(1) by (simp add: well_formed_def list_all_length)
    then have "cards_of (stacks g ! src) \<noteq> []"
      using that(2)
      by (cases "stack (stacks g ! src)")
        (auto simp: is_move_from_legal_def well_formed_stack_def truthy_def cards_of_def
          split: if_splits)
    then show ?thesis
      by (rule which_cards_moving_maximal)
  qed
  then show ?thesis
    using enumerate_moves_set [OF assms] enumerate_moves_sorted by blast
qed

theorem C5_enumerate_moves_witness:
  "well_formed order_game \<and> move_allowed order_game 0 1 \<and>
   (0, 1) \<in> set (enumerate_moves order_game) \<and>
   enumerate_moves order_game = [(0, 1)] \<and>
   run_bottom (stacks order_game ! 0) = (CHR ''9'', CHR ''B'')"
  using C5_enumerate_moves [OF order_game_facts(1)] order_game_facts by simp

subsection \<open>Reading back the hash of a collapsed stack\<close>

text \<open>
  C7, at a game with a collapsed stack. The move from stack 1 to stack 0 collapses
  stack 0; the hash of the child writes the remembered card as \<^verbatim>\<open>X[HH]\<close>, and
  \<^verbatim>\<open>exact_setup\<close>, which reads an integer there, raises ValueError on that hash.
\<close>

theorem C7_collapsed_hash_unreadable:
  "make_child collapsing_game (1, 0) = Inr collapsed_child \<and>
   game_hash collapsed_child = ''S/SX[HH]/'' \<and>
   exact_setup fresh_game (game_hash collapsed_child) = Some (Inl ValueError)"
  by code_simp

end
